theory Spec2Isabelle
  imports Main "HOL-Library.Word" "HOL-Library.Signed_Division" "HOL-Library.Monad_Syntax"
begin

section \<open>Go primitives used by the kernel code\<close>

text \<open>
  The kernel is written in Go for x86-64.  \<open>int\<close> and \<open>int64\<close> are 64-bit two's
  complement integers whose arithmetic wraps around; \<open>uint\<close> and \<open>uintptr\<close> are
  64-bit unsigned.  Signed values are modelled as mathematical integers with the
  wrap-around written out by \<open>int64\<close>; unsigned values are 64-bit words.
  A run-time panic (failed bounds check, division by zero, nil dereference, explicit
  \<open>panic(...)\<close>) is the value \<open>None\<close>.
\<close>

type_synonym byte = "8 word"
type_synonym uint = "64 word"
type_synonym uintptr = "64 word"
type_synonym err_t = int
type_synonym pa_t = "64 word"

definition int64 :: "int \<Rightarrow> int" where
  "int64 k = signed_take_bit 63 k"

text \<open>The values that a Go \<open>int\<close> can hold.\<close>

definition is_int64 :: "int \<Rightarrow> bool" where
  "is_int64 k \<longleftrightarrow> - (2 ^ 63) \<le> k \<and> k < 2 ^ 63"

text \<open>Go's \<open>a % b\<close> on signed integers truncates towards zero and panics when \<open>b = 0\<close>.\<close>

definition go_rem :: "int \<Rightarrow> int \<Rightarrow> int option" where
  "go_rem a b = (if b = 0 then None else Some (a smod b))"

text \<open>Go's \<open>a % b\<close> on unsigned integers; it panics when \<open>b = 0\<close>.\<close>

definition go_urem :: "uint \<Rightarrow> uint \<Rightarrow> uint option" where
  "go_urem a b = (if b = 0 then None else Some (a mod b))"

text \<open>
  The slice expression \<open>s[lo:hi]\<close>.  It panics unless \<open>0 \<le> lo \<le> hi \<le> len(s)\<close>
  (the bound checked here is the length: every slice taken below whose upper bound
  is written out has \<open>hi \<le> len(s)\<close>).
\<close>

definition go_slice :: "'a list \<Rightarrow> int \<Rightarrow> int \<Rightarrow> 'a list option" where
  "go_slice s lo hi =
     (if 0 \<le> lo \<and> lo \<le> hi \<and> hi \<le> int (length s)
      then Some (take (nat (hi - lo)) (drop (nat lo) s)) else None)"

definition slice_from :: "'a list \<Rightarrow> int \<Rightarrow> 'a list option" where
  "slice_from s lo = go_slice s lo (int (length s))"

definition slice_to :: "'a list \<Rightarrow> int \<Rightarrow> 'a list option" where
  "slice_to s hi = go_slice s 0 hi"

text \<open>
  A slice \<open>d = s[lo:hi]\<close> shares the array of \<open>s\<close>: after a callee has written into
  \<open>d\<close>, leaving it as \<open>d'\<close>, the array of \<open>s\<close> holds \<open>d'\<close> from index \<open>lo\<close> on.
\<close>

definition slice_store :: "'a list \<Rightarrow> int \<Rightarrow> 'a list \<Rightarrow> 'a list" where
  "slice_store s lo d' = take (nat lo) s @ d' @ drop (nat lo + length d') s"

text \<open>The built-in \<open>copy(dst, src)\<close>: the number of elements copied and the new \<open>dst\<close>.\<close>

definition go_copy :: "'a list \<Rightarrow> 'a list \<Rightarrow> int \<times> 'a list" where
  "go_copy dst src =
     (let c = min (length dst) (length src) in (int c, take c src @ drop c dst))"

text \<open>The body \<open>for {}\<close>: the CPU spins and the call never returns.\<close>

partial_function (option) forever :: "'s \<Rightarrow> 's option" where
  "forever s = forever s"


section \<open>Kernel I/O buffers\<close>

subsection \<open>The \<open>userio_i\<close> interface and its implementations in \<open>main.go\<close>\<close>

text \<open>
  \<open>uiowrite(src)\<close> copies \<open>src\<close> to user memory, \<open>uioread(dst)\<close> copies user memory
  into \<open>dst\<close>; both return the number of bytes moved and an error code.  A value of
  the interface is an object of some implementation type \<open>'u\<close> together with that
  type's methods; a call returns the results, the contents of \<open>dst\<close> after the call
  (for \<open>uioread\<close>) and the object after the call.
\<close>

record 'u userio_i =
  uiowrite :: "'u \<Rightarrow> byte list \<Rightarrow> (int \<times> err_t) \<times> 'u"
  uioread :: "'u \<Rightarrow> byte list \<Rightarrow> (int \<times> err_t) \<times> byte list \<times> 'u"
  remain :: "'u \<Rightarrow> int"
  totalsz :: "'u \<Rightarrow> int"

text \<open>
  \<open>fakeubuf_t\<close> wraps a kernel byte slice.  \<open>fbuf\<close> is re-sliced forward after every
  transfer, so the bytes already transferred stay in the array in front of it;
  \<open>fdone\<close> holds that part of the array (it is what the creator of the buffer reads
  back through its own slice).
\<close>

record fakeubuf_t =
  fdone :: "byte list"
  fbuf :: "byte list"
  off :: int
  len :: int

definition fake_init :: "byte list \<Rightarrow> fakeubuf_t \<Rightarrow> fakeubuf_t" where
  "fake_init bs fb = fb\<lparr>fdone := [], fbuf := bs, len := int (length bs)\<rparr>"

definition fake_remain :: "fakeubuf_t \<Rightarrow> int" where
  "fake_remain fb = int (length (fbuf fb))"

definition fake_totalsz :: "fakeubuf_t \<Rightarrow> int" where
  "fake_totalsz fb = len fb"

text \<open>\<open>_tx(buf, tofbuf)\<close>; the result carries the contents of \<open>buf\<close> after the call.\<close>

definition fake_tx ::
  "fakeubuf_t \<Rightarrow> byte list \<Rightarrow> bool \<Rightarrow> (int \<times> err_t) \<times> byte list \<times> fakeubuf_t" where
  "fake_tx fb bs tofbuf =
     (if tofbuf then
        (case go_copy (fbuf fb) bs of (c, fbuf') \<Rightarrow>
           ((c, 0), bs,
            fb\<lparr>fdone := fdone fb @ take (nat c) fbuf', fbuf := drop (nat c) fbuf'\<rparr>))
      else
        (case go_copy bs (fbuf fb) of (c, bs') \<Rightarrow>
           ((c, 0), bs',
            fb\<lparr>fdone := fdone fb @ take (nat c) (fbuf fb), fbuf := drop (nat c) (fbuf fb)\<rparr>)))"

definition fake_uioread ::
  "fakeubuf_t \<Rightarrow> byte list \<Rightarrow> (int \<times> err_t) \<times> byte list \<times> fakeubuf_t" where
  "fake_uioread fb dst = fake_tx fb dst False"

definition fake_uiowrite :: "fakeubuf_t \<Rightarrow> byte list \<Rightarrow> (int \<times> err_t) \<times> fakeubuf_t" where
  "fake_uiowrite fb src = (case fake_tx fb src True of (r, _, fb') \<Rightarrow> (r, fb'))"

text \<open>
  The implementations whose code is in this file: \<open>_nilbuf_t\<close>, which copies nothing,
  and \<open>fakeubuf_t\<close>.  (\<open>useriovec_t\<close> forwards to \<open>userbuf_t\<close>, which is defined
  elsewhere; the circular buffer below is verified against any implementation.)
\<close>

datatype userio = Nilbuf | Fakeubuf fakeubuf_t

definition kuserio :: "userio userio_i" where
  "kuserio = \<lparr>
     uiowrite = (\<lambda>u src. case u of
        Nilbuf \<Rightarrow> ((0, 0), Nilbuf)
      | Fakeubuf fb \<Rightarrow> (case fake_uiowrite fb src of (r, fb') \<Rightarrow> (r, Fakeubuf fb'))),
     uioread = (\<lambda>u dst. case u of
        Nilbuf \<Rightarrow> ((0, 0), dst, Nilbuf)
      | Fakeubuf fb \<Rightarrow> (case fake_uioread fb dst of (r, dst', fb') \<Rightarrow> (r, dst', Fakeubuf fb'))),
     remain = (\<lambda>u. case u of Nilbuf \<Rightarrow> 0 | Fakeubuf fb \<Rightarrow> fake_remain fb),
     totalsz = (\<lambda>u. case u of Nilbuf \<Rightarrow> 0 | Fakeubuf fb \<Rightarrow> fake_totalsz fb) \<rparr>"

text \<open>
  What \<open>copyin\<close> and \<open>copyout_n\<close> rely on in an implementation: the count returned is
  between 0 and the length of the slice passed, and \<open>uioread\<close> leaves the length of
  \<open>dst\<close> alone (a callee cannot resize its caller's slice).
\<close>

definition uio_ok :: "'u userio_i \<Rightarrow> bool" where
  "uio_ok io \<longleftrightarrow>
     (\<forall>u dst. case uioread io u dst of ((n, e), dst', u') \<Rightarrow>
        0 \<le> n \<and> n \<le> int (length dst) \<and> length dst' = length dst) \<and>
     (\<forall>u src. case uiowrite io u src of ((n, e), u') \<Rightarrow> 0 \<le> n \<and> n \<le> int (length src))"

subsection \<open>The physical page allocator, as the circular buffer uses it\<close>

text \<open>
  \<open>refpg_new_nozero\<close>, \<open>refup\<close>, \<open>refdown\<close> and \<open>pg2bytes\<close> are defined outside
  \<open>main.go\<close>.  The allocator is a parameter: a state \<open>'m\<close> with the three operations.
  A page is seen through \<open>pg2bytes\<close>, as its \<open>PGSIZE\<close> bytes.
\<close>

type_synonym pg_t = "nat \<Rightarrow> byte"

record 'm physmem =
  refpg_new_nozero :: "'m \<Rightarrow> (pg_t \<times> pa_t) option \<times> 'm"
  refup :: "pa_t \<Rightarrow> 'm \<Rightarrow> 'm"
  refdown :: "pa_t \<Rightarrow> 'm \<Rightarrow> 'm"

text \<open>Modelled from the spec: \<open>PGSIZE\<close> is declared outside \<open>main.go\<close>; a page is 4 KiB.\<close>

definition PGSIZE :: int where
  "PGSIZE = 4096"

text \<open>Modelled from the spec: \<open>ENOMEM\<close> is declared outside \<open>main.go\<close>; errors are POSIX
  error numbers.\<close>

definition ENOMEM :: err_t where
  "ENOMEM = 12"

definition pg2bytes :: "pg_t \<Rightarrow> byte list" where
  "pg2bytes pg = map pg [0..<nat PGSIZE]"

subsection \<open>\<open>circbuf_t\<close>\<close>

text \<open>\<open>buf\<close> is \<open>None\<close> for the nil slice.\<close>

record circbuf_t =
  buf :: "byte list option"
  bufsz :: int
  head :: int
  tail :: int
  p_pg :: pa_t

text \<open>The zero value of the struct.\<close>

definition circbuf_zero :: circbuf_t where
  "circbuf_zero = \<lparr>buf = None, bufsz = 0, head = 0, tail = 0, p_pg = 0\<rparr>"

definition cb_init :: "int \<Rightarrow> circbuf_t \<Rightarrow> (err_t \<times> circbuf_t) option" where
  "cb_init sz cbf =
     (let bufmax = PGSIZE in
      if sz \<le> 0 \<or> sz > bufmax then None
      else Some (0, cbf\<lparr>bufsz := sz, head := 0, tail := 0\<rparr>))"

definition cb_init_phys ::
  "'m physmem \<Rightarrow> byte list \<Rightarrow> pa_t \<Rightarrow> circbuf_t \<times> 'm \<Rightarrow> circbuf_t \<times> 'm" where
  "cb_init_phys pm v ppg cbm =
     (case cbm of (cbf, m) \<Rightarrow>
        (cbf\<lparr>p_pg := ppg, buf := Some v, bufsz := int (length v), head := 0, tail := 0\<rparr>,
         refup pm ppg m))"

definition cb_release :: "'m physmem \<Rightarrow> circbuf_t \<times> 'm \<Rightarrow> circbuf_t \<times> 'm" where
  "cb_release pm cbm =
     (case cbm of (cbf, m) \<Rightarrow>
        (case buf cbf of
           None \<Rightarrow> (cbf, m)
         | Some _ \<Rightarrow> (cbf\<lparr>p_pg := 0, buf := None, head := 0, tail := 0\<rparr>,
                      refdown pm (p_pg cbf) m)))"

definition cb_ensure ::
  "'m physmem \<Rightarrow> circbuf_t \<times> 'm \<Rightarrow> (err_t \<times> circbuf_t \<times> 'm) option" where
  "cb_ensure pm cbm =
     (case cbm of (cbf, m) \<Rightarrow>
        (case buf cbf of
           Some _ \<Rightarrow> Some (0, cbf, m)
         | None \<Rightarrow>
             if bufsz cbf = 0 then None
             else (case refpg_new_nozero pm m of
                     (None, m1) \<Rightarrow> Some (- ENOMEM, cbf, m1)
                   | (Some (pg, ppg), m1) \<Rightarrow>
                       do {
                         bpg \<leftarrow> slice_from (pg2bytes pg) 0;
                         bpg \<leftarrow> slice_to bpg (bufsz cbf);
                         Some (0, cb_init_phys pm bpg ppg (cbf, m1))
                       })))"

definition full :: "circbuf_t \<Rightarrow> bool" where
  "full cbf \<longleftrightarrow> int64 (head cbf - tail cbf) = bufsz cbf"

definition empty :: "circbuf_t \<Rightarrow> bool" where
  "empty cbf \<longleftrightarrow> head cbf = tail cbf"

definition left :: "circbuf_t \<Rightarrow> int" where
  "left cbf = (let used = int64 (head cbf - tail cbf); rem = int64 (bufsz cbf - used) in rem)"

definition used :: "circbuf_t \<Rightarrow> int" where
  "used cbf = (let used = int64 (head cbf - tail cbf) in used)"

text \<open>The bytes of \<open>cb.buf\<close>; the nil slice has none.\<close>

definition bytes :: "circbuf_t \<Rightarrow> byte list" where
  "bytes cbf = (case buf cbf of None \<Rightarrow> [] | Some bs \<Rightarrow> bs)"

text \<open>
  \<open>copyin\<close> from the comment \<open>XXXPANIC\<close> on: the copy into \<open>cb.buf[hi:ti]\<close>, with
  \<open>c\<close> bytes already copied.
\<close>

definition copyin_rest ::
  "'u userio_i \<Rightarrow> 'u \<Rightarrow> circbuf_t \<Rightarrow> 'm \<Rightarrow> int \<Rightarrow> int \<Rightarrow> int \<Rightarrow>
     ((int \<times> err_t) \<times> 'u \<times> circbuf_t \<times> 'm) option" where
  "copyin_rest io src cbf m c hi ti =
     (if hi > ti then None
      else do {
        dst \<leftarrow> go_slice (bytes cbf) hi ti;
        (case uioread io src dst of ((wrote, err), dst', src') \<Rightarrow>
           (let cbf1 = cbf\<lparr>buf := map_option (\<lambda>bs. slice_store bs hi dst') (buf cbf)\<rparr>;
                c1 = int64 (c + wrote)
            in if err \<noteq> 0 then Some ((c1, err), src', cbf1, m)
               else Some ((c1, 0), src', cbf1\<lparr>head := int64 (head cbf1 + c1)\<rparr>, m)))
      })"

definition copyin ::
  "'m physmem \<Rightarrow> 'u userio_i \<Rightarrow> 'u \<Rightarrow> circbuf_t \<times> 'm \<Rightarrow>
     ((int \<times> err_t) \<times> 'u \<times> circbuf_t \<times> 'm) option" where
  "copyin pm io src cbm =
     do {
       (err, cbf, m) \<leftarrow> cb_ensure pm cbm;
       if err \<noteq> 0 then Some ((0, err), src, cbf, m)
       else if full cbf then Some ((0, 0), src, cbf, m)
       else do {
         hi \<leftarrow> go_rem (head cbf) (bufsz cbf);
         ti \<leftarrow> go_rem (tail cbf) (bufsz cbf);
         if ti \<le> hi then do {
           dst \<leftarrow> slice_from (bytes cbf) hi;
           (case uioread io src dst of ((wrote, err), dst', src') \<Rightarrow>
              (let cbf1 = cbf\<lparr>buf := map_option (\<lambda>bs. slice_store bs hi dst') (buf cbf)\<rparr>
               in if err \<noteq> 0 then Some ((0, err), src', cbf1, m)
                  else if wrote \<noteq> int (length dst)
                  then Some ((wrote, 0), src', cbf1\<lparr>head := int64 (head cbf1 + wrote)\<rparr>, m)
                  else do {
                    hi1 \<leftarrow> go_rem (int64 (head cbf1 + wrote)) (bufsz cbf1);
                    copyin_rest io src' cbf1 m (int64 (0 + wrote)) hi1 ti
                  }))
         }
         else copyin_rest io src cbf m 0 hi ti
       }
     }"

text \<open>\<open>src = src[:max]\<close> under the guard \<open>max != 0 && max < len(src)\<close>.\<close>

definition limit_max :: "byte list \<Rightarrow> int \<Rightarrow> byte list option" where
  "limit_max src mx = (if mx \<noteq> 0 \<and> mx < int (length src) then slice_to src mx else Some src)"

text \<open>\<open>copyout_n\<close> from the comment \<open>XXXPANIC\<close> on: the copy out of \<open>cb.buf[ti:hi]\<close>.\<close>

definition copyout_rest ::
  "'u userio_i \<Rightarrow> 'u \<Rightarrow> circbuf_t \<Rightarrow> 'm \<Rightarrow> int \<Rightarrow> int \<Rightarrow> int \<Rightarrow> int \<Rightarrow>
     ((int \<times> err_t) \<times> 'u \<times> circbuf_t \<times> 'm) option" where
  "copyout_rest io dst cbf m c mx hi ti =
     (if ti > hi then None
      else do {
        src \<leftarrow> go_slice (bytes cbf) ti hi;
        src \<leftarrow> limit_max src mx;
        (case uiowrite io dst src of ((wrote, err), dst') \<Rightarrow>
           if err \<noteq> 0 then Some ((0, err), dst', cbf, m)
           else (let c1 = int64 (c + wrote)
                 in Some ((c1, 0), dst', cbf\<lparr>tail := int64 (tail cbf + c1)\<rparr>, m)))
      })"

definition copyout_n ::
  "'m physmem \<Rightarrow> 'u userio_i \<Rightarrow> 'u \<Rightarrow> int \<Rightarrow> circbuf_t \<times> 'm \<Rightarrow>
     ((int \<times> err_t) \<times> 'u \<times> circbuf_t \<times> 'm) option" where
  "copyout_n pm io dst mx cbm =
     do {
       (err, cbf, m) \<leftarrow> cb_ensure pm cbm;
       if err \<noteq> 0 then Some ((0, err), dst, cbf, m)
       else if empty cbf then Some ((0, 0), dst, cbf, m)
       else do {
         hi \<leftarrow> go_rem (head cbf) (bufsz cbf);
         ti \<leftarrow> go_rem (tail cbf) (bufsz cbf);
         if hi \<le> ti then do {
           src \<leftarrow> slice_from (bytes cbf) ti;
           src \<leftarrow> limit_max src mx;
           (case uiowrite io dst src of ((wrote, err), dst') \<Rightarrow>
              if err \<noteq> 0 then Some ((0, err), dst', cbf, m)
              else if wrote \<noteq> int (length src) \<or> wrote = mx
              then Some ((wrote, 0), dst', cbf\<lparr>tail := int64 (tail cbf + wrote)\<rparr>, m)
              else do {
                let c = int64 (0 + wrote);
                let mx1 = (if mx \<noteq> 0 then int64 (mx - c) else mx);
                ti1 \<leftarrow> go_rem (int64 (tail cbf + wrote)) (bufsz cbf);
                copyout_rest io dst' cbf m c mx1 hi ti1
              })
         }
         else copyout_rest io dst cbf m 0 mx hi ti
       }
     }"

definition copyout ::
  "'m physmem \<Rightarrow> 'u userio_i \<Rightarrow> 'u \<Rightarrow> circbuf_t \<times> 'm \<Rightarrow>
     ((int \<times> err_t) \<times> 'u \<times> circbuf_t \<times> 'm) option" where
  "copyout pm io dst cbm = copyout_n pm io dst 0 cbm"

definition advhead :: "int \<Rightarrow> circbuf_t \<Rightarrow> circbuf_t option" where
  "advhead sz cbf =
     (if full cbf \<or> left cbf < sz then None else Some (cbf\<lparr>head := int64 (head cbf + sz)\<rparr>))"

definition advtail :: "int \<Rightarrow> circbuf_t \<Rightarrow> circbuf_t option" where
  "advtail sz cbf =
     (if sz \<noteq> 0 \<and> (empty cbf \<or> used cbf < sz) then None
      else Some (cbf\<lparr>tail := int64 (tail cbf + sz)\<rparr>))"

text \<open>
  A run of the buffer's owner: \<open>copyin\<close>, \<open>copyout\<close> and \<open>copyout_n\<close> calls in any
  order, each with its own user buffer.  The run stops at a panic.
\<close>

datatype 'u cbop = Copyin 'u | Copyout 'u | Copyout_n 'u int

definition cb_op ::
  "'m physmem \<Rightarrow> 'u userio_i \<Rightarrow> 'u cbop \<Rightarrow> circbuf_t \<times> 'm \<Rightarrow>
     ((int \<times> err_t) \<times> 'u \<times> circbuf_t \<times> 'm) option" where
  "cb_op pm io x cbm =
     (case x of
        Copyin src \<Rightarrow> copyin pm io src cbm
      | Copyout dst \<Rightarrow> copyout pm io dst cbm
      | Copyout_n dst mx \<Rightarrow> copyout_n pm io dst mx cbm)"

fun cb_run ::
  "'m physmem \<Rightarrow> 'u userio_i \<Rightarrow> 'u cbop list \<Rightarrow> circbuf_t \<times> 'm \<Rightarrow> (circbuf_t \<times> 'm) option" where
  "cb_run pm io [] cbm = Some cbm"
| "cb_run pm io (x # xs) cbm =
     (case cb_op pm io x cbm of
        None \<Rightarrow> None
      | Some (r, u', cbm') \<Rightarrow> cb_run pm io xs cbm')"

text \<open>
  The shape of a buffer that \<open>cb_init\<close>, \<open>copyin\<close> and \<open>copyout_n\<close> maintain: a
  size between 1 and \<open>PGSIZE\<close>, counters with \<open>0 \<le> tail \<le> head \<le> tail + bufsz\<close>,
  and, once the page is there, a slice of \<open>bufsz\<close> bytes.
\<close>

definition cb_inv :: "circbuf_t \<Rightarrow> bool" where
  "cb_inv cbf \<longleftrightarrow>
     0 < bufsz cbf \<and> bufsz cbf \<le> PGSIZE \<and>
     0 \<le> tail cbf \<and> tail cbf \<le> head cbf \<and> head cbf - tail cbf \<le> bufsz cbf \<and>
     (case buf cbf of None \<Rightarrow> True | Some bs \<Rightarrow> int (length bs) = bufsz cbf)"

text \<open>
  An allocator to run the code on concrete inputs: it hands out the pages of a given
  list, in order, and records the reference-count calls it receives.
\<close>

datatype physcall = Refup pa_t | Refdown pa_t

record physlog =
  avail :: "(pg_t \<times> pa_t) list"
  calls :: "physcall list"

definition physlog_ops :: "physlog physmem" where
  "physlog_ops = \<lparr>
     refpg_new_nozero = (\<lambda>m. case avail m of
        [] \<Rightarrow> (None, m)
      | p # ps \<Rightarrow> (Some p, m\<lparr>avail := ps\<rparr>)),
     refup = (\<lambda>pa m. m\<lparr>calls := calls m @ [Refup pa]\<rparr>),
     refdown = (\<lambda>pa m. m\<lparr>calls := calls m @ [Refdown pa]\<rparr>) \<rparr>"

text \<open>The bytes of an ASCII string, and a fresh \<open>fakeubuf_t\<close> over a kernel slice.\<close>

definition ascii :: "string \<Rightarrow> byte list" where
  "ascii s = map (\<lambda>c. of_nat (of_char c)) s"

definition mkfake :: "byte list \<Rightarrow> userio" where
  "mkfake bs = Fakeubuf (fake_init bs \<lparr>fdone = [], fbuf = [], off = 0, len = 0\<rparr>)"

section \<open>Interrupt dispatch: \<open>trapstub\<close>\<close>

text \<open>
  The vector numbers and trap-frame offsets are constants declared outside \<open>main.go\<close>;
  they are parameters here.  \<open>INT_DISK\<close> stands for \<open>uintptr(INT_DISK)\<close>.
\<close>

record trapconsts =
  TF_TRAP :: nat
  TF_RIP :: nat
  TIMER :: uintptr
  IRQ_BASE :: uintptr
  IRQ_LAST :: uintptr
  INT_KBD :: uintptr
  INT_COM1 :: uintptr
  INT_DISK :: uintptr
  INT_MSI0 :: uintptr
  INT_MSI1 :: uintptr
  INT_MSI2 :: uintptr
  INT_MSI3 :: uintptr
  INT_MSI4 :: uintptr
  INT_MSI5 :: uintptr
  INT_MSI6 :: uintptr
  INT_MSI7 :: uintptr

text \<open>
  The calls \<open>trapstub\<close> makes into the runtime and the IOAPIC driver are recorded in
  order.  The state is that record and the global counter \<open>irqs\<close>.
\<close>

datatype rtcall = Pnum int | IRQwake uint | Irq_mask int

record trapstate =
  irqs :: int
  rtcalls :: "rtcall list"

definition rtcall :: "rtcall \<Rightarrow> trapstate \<Rightarrow> trapstate" where
  "rtcall x s = s\<lparr>rtcalls := rtcalls s @ [x]\<rparr>"

text \<open>
  The trap frame is an array of \<open>TFSIZE\<close> words indexed by constants (which the
  compiler checks against the array length): a function from index to word.
  The result \<open>None\<close> is a call that never returns.
\<close>

definition trapstub :: "trapconsts \<Rightarrow> (nat \<Rightarrow> uintptr) \<Rightarrow> trapstate \<Rightarrow> trapstate option" where
  "trapstub K tf s =
     (let trapno = tf (TF_TRAP K) in
      if trapno \<le> TIMER K \<or> trapno > IRQ_LAST K then
        forever (rtcall (Pnum 0x1001) s)
      else
        (let s1 = s\<lparr>irqs := int64 (irqs s + 1)\<rparr> in
         if trapno = INT_KBD K \<or> trapno = INT_COM1 K then
           (let s2 = rtcall (IRQwake trapno) s1;
                irqno = sint (trapno - IRQ_BASE K)
            in Some (rtcall (Irq_mask irqno) s2))
         else if trapno = INT_DISK K \<or> trapno = INT_MSI0 K \<or> trapno = INT_MSI1 K \<or>
                 trapno = INT_MSI2 K \<or> trapno = INT_MSI3 K \<or> trapno = INT_MSI4 K \<or>
                 trapno = INT_MSI5 K \<or> trapno = INT_MSI6 K \<or> trapno = INT_MSI7 K then
           Some (rtcall (IRQwake trapno) s1)
         else
           forever (rtcall (Pnum 0xbadbabe)
                     (rtcall (Pnum (sint (tf (TF_RIP K))))
                       (rtcall (Pnum (sint trapno)) s1)))))"

section \<open>Process table: \<open>proc_new\<close>\<close>

record ulimit_t =
  pages :: int
  nofile :: int
  novma :: int
  noproc :: int

text \<open>
  The fields of \<open>common.Proc_t\<close> that \<open>proc_new\<close> assigns directly.  A file
  descriptor pointer is \<open>None\<close> when nil; the descriptors themselves are opaque
  (\<open>'fd\<close>).  The thread set \<open>threadi\<close> and the wait structure \<open>mywait\<close> are only
  reached through methods defined elsewhere, see \<open>procext\<close>.
\<close>

record 'fd proc_t =
  name :: string
  pid :: int
  fds :: "'fd option list"
  fdstart :: int
  nfds :: int
  cwd :: "'fd option"
  mmapi :: int
  ulim :: ulimit_t
  tid0 :: int

definition proc_zero :: "'fd proc_t" where
  "proc_zero = \<lparr>name = [], pid = 0, fds = [], fdstart = 0, nfds = 0, cwd = None, mmapi = 0,
     ulim = \<lparr>pages = 0, nofile = 0, novma = 0, noproc = 0\<rparr>, tid0 = 0\<rparr>"

text \<open>
  The globals guarded by \<open>proclock\<close>.  \<open>allprocs\<close> maps a pid to a pointer to the
  process; the entry made by \<open>proc_new\<close> therefore shows the struct as \<open>proc_new\<close>
  leaves it.  \<open>sysprocs\<close> is \<open>syslimit.sysprocs\<close>.
\<close>

record 'fd procglobals =
  nthreads :: int
  pid_cur :: int
  allprocs :: "int \<rightharpoonup> 'fd proc_t"
  sysprocs :: int

text \<open>
  What \<open>proc_new\<close> calls outside \<open>main.go\<close>, over a state \<open>'w\<close> of the rest of the
  kernel: \<open>copyfd\<close>, the \<open>reopen\<close> method of a descriptor, \<open>threadi.init\<close>,
  \<open>_thread_new\<close>, \<open>wait_init\<close> and \<open>start_thread\<close> of the new process (named by its
  pid), and the constants \<open>USERMIN\<close> and \<open>RLIM_INFINITY\<close>.
\<close>

record ('fd, 'w) procext =
  copyfd :: "'fd \<Rightarrow> 'w \<Rightarrow> ('fd option \<times> err_t) \<times> 'w"
  reopen :: "'fd \<Rightarrow> 'w \<Rightarrow> err_t \<times> 'w"
  threadi_init :: "int \<Rightarrow> 'w \<Rightarrow> 'w"
  thread_new :: "int \<Rightarrow> int \<Rightarrow> 'w \<Rightarrow> 'w"
  wait_init :: "int \<Rightarrow> 'w \<Rightarrow> 'w"
  start_thread :: "int \<Rightarrow> int \<Rightarrow> 'w \<Rightarrow> bool \<times> 'w"
  USERMIN :: int
  RLIM_INFINITY :: int

definition deflimits :: "('fd, 'w) procext \<Rightarrow> ulimit_t" where
  "deflimits X = \<lparr>pages = 2 ^ 27 div 2 ^ 12, nofile = RLIM_INFINITY X,
     novma = 2 ^ 8, noproc = 2 ^ 10\<rparr>"

text \<open>
  The loop over the parent's descriptors: \<open>acc\<close> is the part of \<open>ret.fds\<close> already
  passed, \<open>n\<close> is \<open>ret.nfds\<close>.
\<close>

fun copyfds ::
  "('fd, 'w) procext \<Rightarrow> 'fd option list \<Rightarrow> 'fd option list \<times> int \<times> 'w \<Rightarrow>
     'fd option list \<times> int \<times> 'w" where
  "copyfds X [] st = st"
| "copyfds X (None # r) (acc, n, w) = copyfds X r (acc @ [None], n, w)"
| "copyfds X (Some f # r) (acc, n, w) =
     (case copyfd X f w of ((tfd, err), w1) \<Rightarrow>
        copyfds X r (acc @ [if err = 0 then tfd else None], int64 (n + 1), w1))"

definition proc_new ::
  "('fd, 'w) procext \<Rightarrow> string \<Rightarrow> 'fd option \<Rightarrow> 'fd option list \<Rightarrow> 'fd procglobals \<times> 'w \<Rightarrow>
     (('fd proc_t option \<times> bool) \<times> 'fd procglobals \<times> 'w) option" where
  "proc_new X nm cwd0 fds0 gw =
     (case gw of (g, w) \<Rightarrow>
      if nthreads g \<ge> int64 (sysprocs g) then Some ((None, False), g, w)
      else
        (let g1 = g\<lparr>nthreads := int64 (nthreads g + 1)\<rparr>;
             g2 = g1\<lparr>pid_cur := int64 (pid_cur g1 + 1)\<rparr>;
             np = pid_cur g2;
             g3 = g2\<lparr>pid_cur := int64 (pid_cur g2 + 1)\<rparr>;
             t0 = pid_cur g3
         in if allprocs g3 np \<noteq> None then None
            else
              (let ret = proc_zero\<lparr>name := nm, pid := np, fdstart := 3\<rparr> in
               case copyfds X fds0 ([], nfds ret, w) of (fds1, n1, w1) \<Rightarrow>
               (let ret = ret\<lparr>fds := fds1, nfds := n1, cwd := cwd0\<rparr> in
                case cwd ret of
                  None \<Rightarrow> None
                | Some d \<Rightarrow>
                    (case reopen X d w1 of (e, w2) \<Rightarrow>
                     if e \<noteq> 0 then None
                     else
                       (let ret = ret\<lparr>mmapi := USERMIN X, ulim := deflimits X\<rparr>;
                            w3 = threadi_init X (pid ret) w2;
                            ret = ret\<lparr>tid0 := t0\<rparr>;
                            w4 = thread_new X (pid ret) t0 w3;
                            w5 = wait_init X (pid ret) w4
                        in case start_thread X (pid ret) (tid0 ret) w5 of (ok, w6) \<Rightarrow>
                           if \<not> ok then None
                           else Some ((Some ret, True),
                                      g3\<lparr>allprocs := (allprocs g3)(np \<mapsto> ret)\<rparr>, w6)))))))"

text \<open>
  A sequence of \<open>proc_new\<close> calls, each with its own arguments; the results of the
  calls are collected in order.  The run stops at a panic.
\<close>

fun proc_run ::
  "('fd, 'w) procext \<Rightarrow> (string \<times> 'fd option \<times> 'fd option list) list \<Rightarrow> 'fd procglobals \<times> 'w \<Rightarrow>
     (('fd proc_t option \<times> bool) list \<times> 'fd procglobals \<times> 'w) option" where
  "proc_run X [] gw = Some ([], gw)"
| "proc_run X ((nm, cwd0, fds0) # cs) gw =
     (case proc_new X nm cwd0 fds0 gw of
        None \<Rightarrow> None
      | Some (r, gw') \<Rightarrow>
          (case proc_run X cs gw' of
             None \<Rightarrow> None
           | Some (rs, gw'') \<Rightarrow> Some (r # rs, gw'')))"

text \<open>The pids emitted by the successful calls of a run, in order.\<close>

definition emitted :: "('fd proc_t option \<times> bool) list \<Rightarrow> int list" where
  "emitted rs = concat (map (\<lambda>r. case r of (Some p, True) \<Rightarrow> [pid p] | _ \<Rightarrow> []) rs)"

section \<open>Fd pass queue: \<open>passfd_t\<close>\<close>

text \<open>
  \<open>cb\<close> is a slice of descriptor pointers: \<open>None\<close> is the nil slice, and an
  element is \<open>None\<close> when it is the nil pointer.  \<open>inum\<close> and \<open>cnum\<close> are \<open>uint\<close>.
\<close>

record 'fd passfd_t =
  cb :: "'fd option list option"
  inum :: uint
  cnum :: uint

definition passfd_zero :: "'fd passfd_t" where
  "passfd_zero = \<lparr>cb = None, inum = 0, cnum = 0\<rparr>"

text \<open>The elements of \<open>pf.cb\<close>; the nil slice has none.\<close>

definition ring :: "'fd passfd_t \<Rightarrow> 'fd option list" where
  "ring pf = (case cb pf of None \<Rightarrow> [] | Some r \<Rightarrow> r)"

text \<open>Indexing \<open>s[i]\<close> and the assignment \<open>s[i] = v\<close>, which panic when \<open>i \<ge> len(s)\<close>.\<close>

definition go_index :: "'a list \<Rightarrow> uint \<Rightarrow> 'a option" where
  "go_index s i = (if unat i < length s then Some (s ! unat i) else None)"

definition go_assign :: "'a list \<Rightarrow> uint \<Rightarrow> 'a \<Rightarrow> 'a list option" where
  "go_assign s i v = (if unat i < length s then Some (s[unat i := v]) else None)"

definition passfd_add :: "'fd option \<Rightarrow> 'fd passfd_t \<Rightarrow> (bool \<times> 'fd passfd_t) option" where
  "passfd_add nfd pf =
     (let pf1 = (if cb pf = None then pf\<lparr>cb := Some (replicate 10 None)\<rparr> else pf);
          l = (of_nat (length (ring pf1)) :: uint)
      in if inum pf1 - cnum pf1 = l then Some (False, pf1)
         else do {
           i \<leftarrow> go_urem (inum pf1) l;
           r \<leftarrow> go_assign (ring pf1) i nfd;
           Some (True, pf1\<lparr>cb := Some r, inum := inum pf1 + 1\<rparr>)
         })"

definition passfd_take :: "'fd passfd_t \<Rightarrow> (('fd option \<times> bool) \<times> 'fd passfd_t) option" where
  "passfd_take pf =
     (let l = (of_nat (length (ring pf)) :: uint)
      in if inum pf = cnum pf then Some ((None, False), pf)
         else do {
           i \<leftarrow> go_urem (cnum pf) l;
           ret \<leftarrow> go_index (ring pf) i;
           Some ((ret, True), pf\<lparr>cnum := cnum pf + 1\<rparr>)
         })"

text \<open>
  \<open>closeall\<close>: the descriptors on which \<open>fd.fops.close()\<close> is called are recorded in
  order in \<open>closed\<close>; calling it through a nil pointer panics.
\<close>

function passfd_closeall ::
  "'fd passfd_t \<Rightarrow> 'fd list \<Rightarrow> ('fd passfd_t \<times> 'fd list) option" where
  "passfd_closeall pf closed =
     (case passfd_take pf of
        None \<Rightarrow> None
      | Some ((fd, ok), pf') \<Rightarrow>
          if \<not> ok then Some (pf', closed)
          else (case fd of
                  None \<Rightarrow> None
                | Some f \<Rightarrow> passfd_closeall pf' (closed @ [f])))"
  by pat_completeness auto

termination passfd_closeall
proof (relation "measure (\<lambda>(pf, closed). unat (inum pf - cnum pf))")
  show "wf (measure (\<lambda>(pf :: 'a passfd_t, closed :: 'a list). unat (inum pf - cnum pf)))"
    by simp
next
  fix pf :: "'a passfd_t" and closed :: "'a list" and x2 x y pf' fd ok f
  assume t: "passfd_take pf = Some x2" "(x, pf') = x2" "(fd, ok) = x" and ok: "\<not> \<not> ok"
  from t ok have ne: "inum pf \<noteq> cnum pf" and pf': "pf' = pf\<lparr>cnum := cnum pf + 1\<rparr>"
    by (auto simp: passfd_take_def Let_def split: if_splits Option.bind_splits)
  define d where "d = inum pf - cnum pf"
  have d0: "d \<noteq> 0"
    using ne by (simp add: d_def)
  have "inum pf' - cnum pf' = d - 1"
    by (simp add: pf' d_def)
  moreover have "unat (d - 1) < unat d"
    using d0 by (simp add: unat_minus_one unat_gt_0)
  ultimately show "((pf', closed @ [f]), (pf, closed)) \<in>
      measure (\<lambda>(pf, closed). unat (inum pf - cnum pf))"
    by (simp add: d_def)
qed

text \<open>
  A run on the queue: \<open>add\<close> and \<open>take\<close> calls in any order; the results of the
  calls are collected in order (\<open>Inl\<close> for \<open>add\<close>, \<open>Inr\<close> for \<open>take\<close>).
\<close>

datatype 'fd pfop = Add "'fd option" | Take

fun passfd_run ::
  "'fd pfop list \<Rightarrow> 'fd passfd_t \<Rightarrow> ((bool + 'fd option \<times> bool) list \<times> 'fd passfd_t) option" where
  "passfd_run [] pf = Some ([], pf)"
| "passfd_run (Add nfd # xs) pf =
     (case passfd_add nfd pf of
        None \<Rightarrow> None
      | Some (ok, pf') \<Rightarrow> map_option (\<lambda>(rs, pf''). (Inl ok # rs, pf'')) (passfd_run xs pf'))"
| "passfd_run (Take # xs) pf =
     (case passfd_take pf of
        None \<Rightarrow> None
      | Some (r, pf') \<Rightarrow> map_option (\<lambda>(rs, pf''). (Inr r # rs, pf'')) (passfd_run xs pf'))"

text \<open>
  The queue as the specification words it: a bounded first-in first-out queue of
  capacity 10.  \<open>add\<close> answers \<open>false\<close> when the queue holds 10 descriptors, \<open>take\<close>
  hands out the oldest one, and \<open>(nil, false)\<close> when there is none.
\<close>

fun fifo_run :: "'fd pfop list \<Rightarrow> 'fd option list \<Rightarrow> (bool + 'fd option \<times> bool) list" where
  "fifo_run [] q = []"
| "fifo_run (Add nfd # xs) q =
     (if length q = 10 then Inl False # fifo_run xs q else Inl True # fifo_run xs (q @ [nfd]))"
| "fifo_run (Take # xs) q =
     (case q of
        [] \<Rightarrow> Inr (None, False) # fifo_run xs q
      | fd # q' \<Rightarrow> Inr (fd, True) # fifo_run xs q')"

text \<open>
  The descriptors in the queue, oldest first: the ring read from \<open>cnum\<close> up to
  \<open>inum\<close>; and the shape of a queue that \<open>add\<close> and \<open>take\<close> maintain.
\<close>

definition queued :: "'fd passfd_t \<Rightarrow> 'fd option list" where
  "queued pf =
     map (\<lambda>k. ring pf ! ((unat (cnum pf) + k) mod length (ring pf)))
       [0..<unat (inum pf - cnum pf)]"

definition pf_inv :: "'fd passfd_t \<Rightarrow> bool" where
  "pf_inv pf \<longleftrightarrow>
     (case cb pf of None \<Rightarrow> inum pf = cnum pf | Some r \<Rightarrow> length r = 10) \<and>
     unat (cnum pf) \<le> unat (inum pf) \<and> unat (inum pf) - unat (cnum pf) \<le> 10"

section \<open>Console daemon: \<open>kbd_daemon\<close>\<close>

text \<open>
  What the daemon sends out is recorded in order: the characters and the message it
  prints, the \<open>irq_eoi\<close> calls, the slices sent on \<open>cons.reader\<close> and the answers
  sent on \<open>cons.pollret\<close>.
\<close>

datatype kbdout = Printf_c byte | Printf_dropped | Irq_eoi int | Reader "byte list" | Pollret uint

record pollmsg_t =
  events :: uint
  dowait :: bool

text \<open>
  The daemon's local variables: \<open>data\<close>; whether \<open>reqc\<close> is \<open>cons.reqc\<close> (it is nil
  otherwise, and a receive from a nil channel is never selected); \<open>pollers\<close>, whose
  type \<open>pollers_t\<close> is defined elsewhere (\<open>'p\<close>); and the record of what was sent.
\<close>

record 'p kbd_t =
  data :: "byte list"
  reqc :: bool
  pollers :: 'p
  kout :: "kbdout list"

text \<open>
  Defined outside \<open>main.go\<close>: the methods of \<open>pollers_t\<close> and the constants
  \<open>R_READ\<close>, \<open>IRQ_KBD\<close>, \<open>IRQ_COM1\<close>.  \<open>km\<close> is the scan-code table passed to the
  daemon.
\<close>

record 'p kbdenv =
  km :: "int \<rightharpoonup> byte"
  addpoller :: "pollmsg_t \<Rightarrow> 'p \<Rightarrow> 'p"
  wakeready :: "uint \<Rightarrow> 'p \<Rightarrow> 'p"
  R_READ :: uint
  IRQ_KBD :: int
  IRQ_COM1 :: int

definition kbd_init_state :: "'p \<Rightarrow> 'p kbd_t" where
  "kbd_init_state ps = \<lparr>data = [], reqc = False, pollers = ps, kout = []\<rparr>"

definition ksend :: "kbdout \<Rightarrow> 'p kbd_t \<Rightarrow> 'p kbd_t" where
  "ksend x s = s\<lparr>kout := kout s @ [x]\<rparr>"

text \<open>The closure \<open>addprint\<close>.  The byte \<open>'\\'\<close> (0x5C) makes it panic.\<close>

definition addprint :: "byte \<Rightarrow> 'p kbd_t \<Rightarrow> 'p kbd_t option" where
  "addprint c s =
     (let s1 = ksend (Printf_c c) s in
      if int (length (data s1)) > 1024 then Some (ksend Printf_dropped s1)
      else
        (let s2 = s1\<lparr>data := data s1 @ [c]\<rparr> in
         if c = 0x5C then None
         else if c = 0x40 then Some s2
         else if c = 0x25 then Some s2
         else Some s2))"

text \<open>\<open>addprint\<close> on each byte of a sequence in turn.\<close>

fun addprints :: "byte list \<Rightarrow> 'p kbd_t \<Rightarrow> 'p kbd_t option" where
  "addprints [] s = Some s"
| "addprints (c # cs) s = (case addprint c s of None \<Rightarrow> None | Some s' \<Rightarrow> addprints cs s')"

text \<open>
  The case \<open><- cons.kbd_int\<close>: \<open>scs\<close> are the values that port 0x60 delivers while
  \<open>_kready()\<close> holds.
\<close>

fun kbd_drain :: "'p kbdenv \<Rightarrow> int list \<Rightarrow> 'p kbd_t \<Rightarrow> 'p kbd_t option" where
  "kbd_drain E [] s = Some s"
| "kbd_drain E (sc # scs) s =
     (case km E sc of
        Some c \<Rightarrow> (case addprint c s of None \<Rightarrow> None | Some s' \<Rightarrow> kbd_drain E scs s')
      | None \<Rightarrow> kbd_drain E scs s)"

definition kbd_int_case :: "'p kbdenv \<Rightarrow> int list \<Rightarrow> 'p kbd_t \<Rightarrow> 'p kbd_t option" where
  "kbd_int_case E scs s = map_option (ksend (Irq_eoi (IRQ_KBD E))) (kbd_drain E scs s)"

text \<open>
  The case \<open><- cons.com_int\<close>: \<open>scs\<close> are the values that the UART delivers while
  \<open>_comready()\<close> holds; \<open>byte(sc)\<close> keeps the low eight bits.
\<close>

fun com_drain :: "int list \<Rightarrow> 'p kbd_t \<Rightarrow> 'p kbd_t option" where
  "com_drain [] s = Some s"
| "com_drain (sc # scs) s =
     (let c = (word_of_int sc :: byte);
          c = (if c = 0x0D then 0x0A else if c = 127 then 0x08 else c)
      in case addprint c s of None \<Rightarrow> None | Some s' \<Rightarrow> com_drain scs s')"

definition com_int_case :: "'p kbdenv \<Rightarrow> int list \<Rightarrow> 'p kbd_t \<Rightarrow> 'p kbd_t option" where
  "com_int_case E scs s = map_option (ksend (Irq_eoi (IRQ_COM1 E))) (com_drain scs s)"

text \<open>The case \<open>l := <- reqc\<close>.\<close>

definition reqc_case :: "int \<Rightarrow> 'p kbd_t \<Rightarrow> 'p kbd_t option" where
  "reqc_case l s =
     (let l = (if l > int (length (data s)) then int (length (data s)) else l) in
      do {
        sl \<leftarrow> go_slice (data s) 0 l;
        let s1 = ksend (Reader sl) s;
        d \<leftarrow> slice_from (data s1) l;
        Some (s1\<lparr>data := d\<rparr>)
      })"

text \<open>
  The case \<open>pm := <- cons.pollc\<close>; the flag returned tells whether the iteration
  ended with \<open>continue\<close>.
\<close>

definition pollc_case :: "'p kbdenv \<Rightarrow> pollmsg_t \<Rightarrow> 'p kbd_t \<Rightarrow> bool \<times> 'p kbd_t" where
  "pollc_case E pm s =
     (if and (events pm) (R_READ E) = 0 then (True, ksend (Pollret 0) s)
      else
        (let ret = (0 :: uint) in
         if length (data s) > 0 then (False, ksend (Pollret (or ret (R_READ E))) s)
         else if dowait pm
         then (False, ksend (Pollret ret) (s\<lparr>pollers := addpoller E pm (pollers s)\<rparr>))
         else (False, ksend (Pollret ret) s)))"

text \<open>The statements after the \<open>select\<close>.\<close>

definition after_select :: "'p kbdenv \<Rightarrow> 'p kbd_t \<Rightarrow> 'p kbd_t" where
  "after_select E s =
     (if length (data s) = 0 then s\<lparr>reqc := False, data := []\<rparr>
      else s\<lparr>reqc := True, pollers := wakeready E (R_READ E) (pollers s)\<rparr>)"

text \<open>
  One iteration of the daemon's loop on the communication that the \<open>select\<close> picks.
  A read request can be picked only while \<open>reqc\<close> is not nil; otherwise the daemon
  stays as it is.
\<close>

datatype kbdev = Kbd_int "int list" | Com_int "int list" | Reqc int | Pollc pollmsg_t

definition kbd_iter :: "'p kbdenv \<Rightarrow> kbdev \<Rightarrow> 'p kbd_t \<Rightarrow> 'p kbd_t option" where
  "kbd_iter E ev s =
     (case ev of
        Kbd_int scs \<Rightarrow> map_option (after_select E) (kbd_int_case E scs s)
      | Com_int scs \<Rightarrow> map_option (after_select E) (com_int_case E scs s)
      | Reqc l \<Rightarrow> if reqc s then map_option (after_select E) (reqc_case l s) else Some s
      | Pollc pm \<Rightarrow>
          (case pollc_case E pm s of (cont, s') \<Rightarrow>
             if cont then Some s' else Some (after_select E s')))"

fun kbd_daemon :: "'p kbdenv \<Rightarrow> kbdev list \<Rightarrow> 'p kbd_t \<Rightarrow> 'p kbd_t option" where
  "kbd_daemon E [] s = Some s"
| "kbd_daemon E (ev # evs) s =
     (case kbd_iter E ev s of None \<Rightarrow> None | Some s' \<Rightarrow> kbd_daemon E evs s')"

section \<open>Concrete inputs\<close>

text \<open>An assignment of the vector numbers and trap-frame offsets, to run \<open>trapstub\<close>.\<close>

definition vectors :: trapconsts where
  "vectors = \<lparr>TF_TRAP = 19, TF_RIP = 21, TIMER = 32, IRQ_BASE = 32, IRQ_LAST = 63,
     INT_KBD = 33, INT_COM1 = 36, INT_DISK = 46, INT_MSI0 = 56, INT_MSI1 = 57, INT_MSI2 = 58,
     INT_MSI3 = 59, INT_MSI4 = 60, INT_MSI5 = 61, INT_MSI6 = 62, INT_MSI7 = 63\<rparr>"

text \<open>
  For \<open>proc_new\<close>: descriptors are numbers, the rest of the kernel records the
  descriptors that were copied or reopened, every thread starts; the thread cap is 2.
\<close>

definition ext0 :: "(nat, nat list) procext" where
  "ext0 = \<lparr>copyfd = (\<lambda>f w. ((Some f, 0), w @ [f])), reopen = (\<lambda>f w. (0, w @ [f])),
     threadi_init = (\<lambda>p w. w), thread_new = (\<lambda>p t w. w), wait_init = (\<lambda>p w. w),
     start_thread = (\<lambda>p t w. (True, w)), USERMIN = 0x100000000, RLIM_INFINITY = 2 ^ 63 - 1\<rparr>"

definition g0 :: "nat procglobals" where
  "g0 = \<lparr>nthreads = 0, pid_cur = 0, allprocs = Map.empty, sysprocs = 2\<rparr>"

definition calls3 :: "(string \<times> nat option \<times> nat option list) list" where
  "calls3 = [(''sh'', Some 7, [Some 0, None, Some 2]), (''ls'', Some 7, []), (''x'', Some 7, [])]"

text \<open>
  For \<open>cb_release\<close>: a buffer without a page whose \<open>head\<close> is 3 (it is what
  \<open>cb_init(8)\<close> followed by \<open>_advhead(3)\<close> leaves of the zero value), and a buffer
  with a page.
\<close>

definition cb_stale :: circbuf_t where
  "cb_stale = \<lparr>buf = None, bufsz = 8, head = 3, tail = 0, p_pg = 0\<rparr>"

definition cb_live :: circbuf_t where
  "cb_live = \<lparr>buf = Some (ascii ''ABCDEFGH''), bufsz = 8, head = 10, tail = 3, p_pg = 0x5000\<rparr>"

text \<open>
  For the console daemon: a scan-code table for \<open>h\<close>, \<open>i\<close> and the enter key,
  pollers kept as a list that \<open>wakeready\<close> empties, and the daemon's state after
  the three keys.
\<close>

definition kenv0 :: "pollmsg_t list kbdenv" where
  "kenv0 = \<lparr>km = [0x23 \<mapsto> 0x68, 0x17 \<mapsto> 0x69, 0x1C \<mapsto> 0x0A],
     addpoller = (\<lambda>pm ps. ps @ [pm]), wakeready = (\<lambda>r ps. []),
     R_READ = 1, IRQ_KBD = 1, IRQ_COM1 = 4\<rparr>"

definition kbd_hi :: "pollmsg_t list kbd_t" where
  "kbd_hi = \<lparr>data = [0x68, 0x69, 0x0A], reqc = True, pollers = [],
     kout = [Printf_c 0x68, Printf_c 0x69, Printf_c 0x0A, Irq_eoi 1]\<rparr>"

text \<open>
  For the fd pass queue: eleven \<open>add\<close> calls, then \<open>take\<close>, \<open>add\<close> and ten
  \<open>take\<close> calls; descriptors are numbers.
\<close>

definition pf_fds11 :: "nat option list" where
  "pf_fds11 = map Some [1, 2, 3, 4, 5, 6, 7, 8, 9, 10, 11]"

definition pf_scenario :: "nat pfop list" where
  "pf_scenario = map Add pf_fds11 @ [Take, Add (Some 12)] @ replicate 10 Take"

text \<open>
  For the circular buffer: a buffer of size 8 before its first use and with its page
  (contents, \<open>head\<close>, \<open>tail\<close>, page address); a \<open>fakeubuf_t\<close> after a transfer
  (bytes transferred, rest of the slice, total size); an allocator holding one page
  of stale bytes; and the run write 8, read 3, write 2, read 7.
\<close>

definition cb8_new :: circbuf_t where
  "cb8_new = \<lparr>buf = None, bufsz = 8, head = 0, tail = 0, p_pg = 0\<rparr>"

definition cb8 :: "byte list \<Rightarrow> int \<Rightarrow> int \<Rightarrow> pa_t \<Rightarrow> circbuf_t" where
  "cb8 bs h t ppg = \<lparr>buf = Some bs, bufsz = 8, head = h, tail = t, p_pg = ppg\<rparr>"

definition fake_st :: "byte list \<Rightarrow> byte list \<Rightarrow> int \<Rightarrow> userio" where
  "fake_st done rest n = Fakeubuf \<lparr>fdone = done, fbuf = rest, off = 0, len = n\<rparr>"

definition stale_page :: pg_t where
  "stale_page = (\<lambda>i. 0xAA)"

definition one_page :: physlog where
  "one_page = \<lparr>avail = [(stale_page, 0x5000)], calls = []\<rparr>"

definition cb_scenario :: "userio cbop list" where
  "cb_scenario =
     [Copyin (mkfake (ascii ''ABCDEFGH'')), Copyout_n (mkfake (replicate 16 0)) 3,
      Copyin (mkfake (ascii ''IJ'')), Copyout_n (mkfake (replicate 16 0)) 7]"

section \<open>Properties of the Go primitives\<close>

lemma int64_id: "is_int64 k \<Longrightarrow> int64 k = k"
  by (simp add: int64_def is_int64_def signed_take_bit_int_eq_self)


lemma forever_None: "forever s = None"
proof (cases "forever s")
  case None
  then show ?thesis .
next
  case (Some y)
  then have False
    by (rule forever.raw_induct [where P = "\<lambda>_ _. False", rotated]) blast
  then show ?thesis ..
qed

section \<open>Interrupt dispatch\<close>

text \<open>
  Claim C5.  For every trap frame whose trap number is at most \<open>TIMER\<close> or greater than
  \<open>IRQ_LAST\<close>, \<open>trapstub\<close> never returns; whenever \<open>trapstub\<close> returns, the trap
  number lies in the range \<open>(TIMER, IRQ_LAST]\<close>.
\<close>

theorem trapstub_returns_only_for_irqs:
  "(tf (TF_TRAP K) \<le> TIMER K \<or> tf (TF_TRAP K) > IRQ_LAST K \<longrightarrow> trapstub K tf s = None) \<and>
   (trapstub K tf s \<noteq> None \<longrightarrow> TIMER K < tf (TF_TRAP K) \<and> tf (TF_TRAP K) \<le> IRQ_LAST K)"
proof -
  have halt: "trapstub K tf s = None"
    if "tf (TF_TRAP K) \<le> TIMER K \<or> tf (TF_TRAP K) > IRQ_LAST K"
    using that by (simp add: trapstub_def Let_def forever_None)
  show ?thesis
  proof (intro conjI impI)
    assume "tf (TF_TRAP K) \<le> TIMER K \<or> tf (TF_TRAP K) > IRQ_LAST K"
    then show "trapstub K tf s = None" by (rule halt)
  next
    assume "trapstub K tf s \<noteq> None"
    with halt have "\<not> (tf (TF_TRAP K) \<le> TIMER K \<or> tf (TF_TRAP K) > IRQ_LAST K)"
      by blast
    then show "TIMER K < tf (TF_TRAP K)" and "tf (TF_TRAP K) \<le> IRQ_LAST K"
      by (simp_all add: not_le not_less)
  qed
qed

text \<open>
  On the vectors above: trap 14 (at most \<open>TIMER\<close>) never returns; trap 33, the
  keyboard, returns after one wake and one IOAPIC mask.
\<close>

theorem trapstub_returns_only_for_irqs_witness:
  "trapstub vectors (\<lambda>i. if i = 19 then 14 else 0) \<lparr>irqs = 0, rtcalls = []\<rparr> = None \<and>
   trapstub vectors (\<lambda>i. if i = 19 then 33 else 0) \<lparr>irqs = 0, rtcalls = []\<rparr>
     = Some \<lparr>irqs = 1, rtcalls = [IRQwake 33, Irq_mask 1]\<rparr> \<and>
   TIMER vectors < 33 \<and> (33 :: uintptr) \<le> IRQ_LAST vectors"
  using
    trapstub_returns_only_for_irqs
      [of "\<lambda>i. if i = 19 then 14 else 0" vectors "\<lparr>irqs = 0, rtcalls = []\<rparr>"]
    trapstub_returns_only_for_irqs
      [of "\<lambda>i. if i = 19 then 33 else 0" vectors "\<lparr>irqs = 0, rtcalls = []\<rparr>"]
  by (simp add: vectors_def trapstub_def rtcall_def int64_def)

section \<open>Process table\<close>

lemma proc_new_result:
  assumes "proc_new X nm cwd0 fds0 (g, w) = Some ((r, ok), g', w')"
    and "is_int64 (pid_cur g)" and "pid_cur g + 2 < 2 ^ 63"
  shows "(ok \<and> (\<exists>p. r = Some p \<and> pid p = pid_cur g + 1) \<and> pid_cur g' = pid_cur g + 2) \<or>
         (\<not> ok \<and> r = None \<and> g' = g \<and> w' = w)"
proof -
  have a: "int64 (pid_cur g + 1) = pid_cur g + 1"
    using assms(2,3) by (intro int64_id) (simp add: is_int64_def)
  have b: "int64 (2 + pid_cur g) = pid_cur g + 2"
    using assms(2,3) int64_id [of "2 + pid_cur g"] by (simp add: is_int64_def)
  show ?thesis
    using assms(1)
    by (auto simp: proc_new_def Let_def a b split: if_splits prod.splits option.splits)
qed

lemma emitted_Cons:
  "emitted (r # rs) = (case r of (Some p, True) \<Rightarrow> [pid p] | _ \<Rightarrow> []) @ emitted rs"
  by (simp add: emitted_def)

lemma proc_run_pids:
  assumes "proc_run X cs (g, w) = Some (rs, g', w')"
    and "is_int64 (pid_cur g)" and "pid_cur g + 2 * int (length cs) < 2 ^ 63"
  shows "sorted_wrt (<) (emitted rs) \<and> (\<forall>p \<in> set (emitted rs). pid_cur g < p)"
  using assms
proof (induction cs arbitrary: g w rs)
  case Nil
  then show ?case by (simp add: emitted_def)
next
  case (Cons c cs)
  obtain nm cwd0 fds0 where c: "c = (nm, cwd0, fds0)"
    by (cases c)
  from Cons.prems(1) obtain r ok g1 w1 rs1 where
    p: "proc_new X nm cwd0 fds0 (g, w) = Some ((r, ok), g1, w1)"
    and run: "proc_run X cs (g1, w1) = Some (rs1, g', w')" and rs: "rs = (r, ok) # rs1"
    by (auto simp: c split: option.splits)
  have small: "pid_cur g + 2 < 2 ^ 63"
    using Cons.prems(3) by simp
  from proc_new_result [OF p Cons.prems(2) small]
  have step: "(ok \<and> (\<exists>p. r = Some p \<and> pid p = pid_cur g + 1) \<and> pid_cur g1 = pid_cur g + 2) \<or>
         (\<not> ok \<and> r = None \<and> g1 = g \<and> w1 = w)" .
  then have g1: "pid_cur g \<le> pid_cur g1" "pid_cur g1 \<le> pid_cur g + 2"
    by auto
  have i1: "is_int64 (pid_cur g1)"
    using g1 Cons.prems(2,3) by (simp add: is_int64_def)
  have b1: "pid_cur g1 + 2 * int (length cs) < 2 ^ 63"
    using g1 Cons.prems(3) by simp
  from Cons.IH [OF run i1 b1]
  have ih: "sorted_wrt (<) (emitted rs1)" "\<forall>p \<in> set (emitted rs1). pid_cur g1 < p"
    by simp_all
  from step show ?case
  proof
    assume "ok \<and> (\<exists>p. r = Some p \<and> pid p = pid_cur g + 1) \<and> pid_cur g1 = pid_cur g + 2"
    then obtain p where "ok" "r = Some p" "pid p = pid_cur g + 1" "pid_cur g1 = pid_cur g + 2"
      by blast
    with ih show ?case
      by (auto simp: rs emitted_Cons)
  next
    assume "\<not> ok \<and> r = None \<and> g1 = g \<and> w1 = w"
    with ih show ?case
      by (auto simp: rs emitted_Cons)
  qed
qed

text \<open>
  Claim C3.  Over any sequence of \<open>proc_new\<close> calls, the pids emitted by the
  successful calls are strictly increasing, hence pairwise different, and all greater
  than the value the counter had before: each new pid is greater than every pid
  emitted earlier.  The counter is a 64-bit \<open>int\<close> that moves by two per process;
  the run is one that does not exhaust it.
\<close>

theorem proc_new_pids_increase:
  assumes "proc_run X cs (g, w) = Some (rs, g', w')"
    and "is_int64 (pid_cur g)" and "pid_cur g + 2 * int (length cs) < 2 ^ 63"
  shows "sorted_wrt (<) (emitted rs) \<and> distinct (emitted rs) \<and>
         (\<forall>p \<in> set (emitted rs). pid_cur g < p)"
proof -
  from proc_run_pids [OF assms]
  have s: "sorted_wrt (<) (emitted rs)" and b: "\<forall>p \<in> set (emitted rs). pid_cur g < p"
    by simp_all
  from s have "distinct (emitted rs)"
    by (simp add: strict_sorted_iff)
  with s b show ?thesis by simp
qed

lemma run_calls3:
  "map_option (\<lambda>(rs, _). emitted rs) (proc_run ext0 calls3 (g0, [])) = Some [1, 3]"
  unfolding calls3_def g0_def ext0_def
  by (simp add: proc_new_def int64_def Let_def proc_zero_def deflimits_def emitted_def)

text \<open>
  Three calls from the boot state with a thread cap of 2: the first two emit the
  pids 1 and 3, the third is refused.
\<close>

theorem proc_new_pids_increase_witness:
  "is_int64 (pid_cur g0) \<and> pid_cur g0 + 2 * int (length calls3) < 2 ^ 63 \<and>
   map_option (\<lambda>(rs, _). emitted rs) (proc_run ext0 calls3 (g0, [])) = Some [1, 3] \<and>
   sorted_wrt (<) [1, 3 :: int] \<and> distinct [1, 3 :: int] \<and> pid_cur g0 < 1 \<and> pid_cur g0 < 3"
proof -
  have a: "is_int64 (pid_cur g0)"
    by (simp add: g0_def is_int64_def)
  have b: "pid_cur g0 + 2 * int (length calls3) < 2 ^ 63"
    by (simp add: g0_def calls3_def)
  from run_calls3 obtain rs g' w' where
    run: "proc_run ext0 calls3 (g0, []) = Some (rs, g', w')" and rs: "emitted rs = [1, 3]"
    by auto
  from proc_new_pids_increase [OF run a b] rs
  have "sorted_wrt (<) [1, 3 :: int] \<and> distinct [1, 3 :: int] \<and> pid_cur g0 < 1 \<and> pid_cur g0 < 3"
    by simp
  with a b run_calls3 show ?thesis
    by simp
qed

text \<open>
  Claim C4.  When \<open>proc_new\<close> is called while \<open>nthreads \<ge> syslimit.sysprocs\<close>, it
  returns \<open>(nil, false)\<close> and leaves all state as it was: \<open>pid_cur\<close>, \<open>nthreads\<close>, the
  \<open>allprocs\<close> map (and the rest of the kernel, which it does not call).
\<close>

theorem proc_new_at_cap:
  assumes "is_int64 (sysprocs g)" and "nthreads g \<ge> sysprocs g"
  shows "proc_new X nm cwd0 fds0 (g, w) = Some ((None, False), g, w)"
  using assms by (simp add: proc_new_def int64_id)

theorem proc_new_at_cap_witness:
  "is_int64 (sysprocs (g0\<lparr>nthreads := 2\<rparr>)) \<and>
   nthreads (g0\<lparr>nthreads := 2\<rparr>) \<ge> sysprocs (g0\<lparr>nthreads := 2\<rparr>) \<and>
   proc_new ext0 ''sh'' (Some 7) [Some 0, Some 1, Some 2] (g0\<lparr>nthreads := 2\<rparr>, [])
     = Some ((None, False), g0\<lparr>nthreads := 2\<rparr>, [])"
proof -
  have a: "is_int64 (sysprocs (g0\<lparr>nthreads := 2\<rparr>))"
    by (simp add: g0_def is_int64_def)
  have b: "nthreads (g0\<lparr>nthreads := 2\<rparr>) \<ge> sysprocs (g0\<lparr>nthreads := 2\<rparr>)"
    by (simp add: g0_def)
  show ?thesis
    using a b proc_new_at_cap [OF a b] by simp
qed

section \<open>Console daemon\<close>

lemma addprint_below_cap:
  assumes "length (data s) \<le> 1024" and "c \<noteq> 0x5C"
  shows "addprint c s = Some (s\<lparr>kout := kout s @ [Printf_c c], data := data s @ [c]\<rparr>)"
  using assms by (simp add: addprint_def ksend_def Let_def)

lemma addprints_replicate:
  assumes "c \<noteq> 0x5C" and "length (data s) + n \<le> 1025"
  shows "\<exists>s'. addprints (replicate n c) s = Some s' \<and> data s' = data s @ replicate n c"
  using assms(2)
proof (induction n arbitrary: s)
  case 0
  then show ?case by simp
next
  case (Suc n)
  let ?s1 = "s\<lparr>kout := kout s @ [Printf_c c], data := data s @ [c]\<rparr>"
  have a: "addprint c s = Some ?s1"
    using Suc.prems assms(1) by (intro addprint_below_cap) simp_all
  have "length (data ?s1) + n \<le> 1025"
    using Suc.prems by simp
  from Suc.IH [OF this] obtain s' where
    "addprints (replicate n c) ?s1 = Some s'" "data s' = data ?s1 @ replicate n c"
    by blast
  then show ?case
    using a by (simp add: replicate_app_Cons_same)
qed

text \<open>
  Claim C7 says that the daemon's buffer never holds more than 1024 bytes, a byte
  that arrives when it holds 1024 being dropped.  The guard of \<open>addprint\<close> is
  \<open>len(data) > 1024\<close>, so that byte is appended: 1025 bytes \<open>a\<close> given to \<open>addprint\<close>
  one after the other, with no read in between, are all in the buffer.
\<close>

theorem addprint_holds_1025_bytes:
  "\<exists>s'. addprints (replicate 1025 0x61) (kbd_init_state ()) = Some s' \<and>
        length (data s') = 1025"
proof -
  have "length (data (kbd_init_state ())) + 1025 \<le> 1025"
    by (simp add: kbd_init_state_def)
  from addprints_replicate [OF _ this, of "0x61"]
  obtain s' where "addprints (replicate 1025 0x61) (kbd_init_state ()) = Some s'"
    "data s' = data (kbd_init_state ()) @ replicate 1025 0x61"
    by auto
  then show ?thesis
    by (auto simp: kbd_init_state_def)
qed

text \<open>What does hold: the buffer never grows beyond 1025 bytes.\<close>

lemma addprint_bound:
  "addprint c s = Some s' \<Longrightarrow> length (data s) \<le> 1025 \<Longrightarrow> length (data s') \<le> 1025"
  by (auto simp: addprint_def ksend_def Let_def split: if_splits)

text \<open>
  Claim C8.  When the daemon services a read request of non-negative size \<open>l\<close>, it
  sends the first \<open>min(l, len(data))\<close> bytes of the buffer on \<open>cons.reader\<close>, never
  more than \<open>l\<close> bytes, and exactly those bytes are gone from the front of the buffer
  afterwards.
\<close>

theorem reqc_delivers_prefix:
  assumes "0 \<le> l" and "reqc s"
  shows "\<exists>s'. kbd_iter E (Reqc l) s = Some s' \<and>
           (let n = nat (min l (int (length (data s)))) in
            kout s' = kout s @ [Reader (take n (data s))] \<and>
            length (take n (data s)) = n \<and> int n \<le> l \<and>
            data s' = drop n (data s))"
  using assms
  by (auto simp: kbd_iter_def reqc_case_def go_slice_def slice_from_def ksend_def Let_def
      after_select_def min_def)

text \<open>
  After the keys \<open>h\<close>, \<open>i\<close>, enter: a reader asking for 10 bytes gets the three
  bytes, one asking for 2 gets \<open>hi\<close> and leaves the newline.
\<close>

theorem reqc_delivers_prefix_witness:
  "kbd_daemon kenv0 [Kbd_int [0x23, 0x17, 0x1C]] (kbd_init_state []) = Some kbd_hi \<and>
   (0 :: int) \<le> 10 \<and> reqc kbd_hi \<and>
   kbd_iter kenv0 (Reqc 10) kbd_hi =
     Some (kbd_hi\<lparr>data := [], reqc := False, kout := kout kbd_hi @ [Reader [0x68, 0x69, 0x0A]]\<rparr>) \<and>
   kbd_iter kenv0 (Reqc 2) kbd_hi =
     Some (kbd_hi\<lparr>data := [0x0A], kout := kout kbd_hi @ [Reader [0x68, 0x69]]\<rparr>)"
  using reqc_delivers_prefix [of 10 kbd_hi kenv0] reqc_delivers_prefix [of 2 kbd_hi kenv0]
  by (simp add: kbd_hi_def kenv0_def kbd_init_state_def kbd_iter_def kbd_int_case_def
      addprint_def ksend_def after_select_def reqc_case_def go_slice_def slice_from_def Let_def)

section \<open>Circular buffer: \<open>copyin\<close> and \<open>copyout_n\<close>\<close>

lemma int64_range: "0 \<le> k \<Longrightarrow> k < 2 ^ 63 \<Longrightarrow> int64 k = k"
  by (rule int64_id) (simp add: is_int64_def)

lemma smod_nonneg: "0 \<le> a \<Longrightarrow> 0 < b \<Longrightarrow> a smod b = a mod (b :: int)"
  by (simp add: signed_modulo_int_def sgn_if)

lemma go_rem_nonneg: "0 \<le> a \<Longrightarrow> 0 < b \<Longrightarrow> go_rem a b = Some (a mod b)"
  by (simp add: go_rem_def smod_nonneg)

lemma mod_gap:
  fixes h t n :: int
  assumes "0 \<le> h - t" and "h - t < n"
  shows "(t mod n \<le> h mod n \<longrightarrow> h - t = h mod n - t mod n) \<and>
         (h mod n < t mod n \<longrightarrow> h - t = h mod n - t mod n + n)"
proof -
  have n: "0 < n"
    using assms by simp
  have e: "h - t = (h mod n - t mod n) mod n"
    using assms by (simp add: mod_diff_eq)
  have b: "0 \<le> h mod n" "h mod n < n" "0 \<le> t mod n" "t mod n < n"
    using n by simp_all
  show ?thesis
  proof (intro conjI impI)
    assume "t mod n \<le> h mod n"
    then have "(h mod n - t mod n) mod n = h mod n - t mod n"
      using b by (intro mod_pos_pos_trivial) linarith+
    with e show "h - t = h mod n - t mod n"
      by simp
  next
    assume lt: "h mod n < t mod n"
    have "(h mod n - t mod n) mod n = (h mod n - t mod n + n) mod n"
      by simp
    also have "\<dots> = h mod n - t mod n + n"
      using b lt by (intro mod_pos_pos_trivial) linarith+
    finally show "h - t = h mod n - t mod n + n"
      using e by simp
  qed
qed

lemma mod_gap_full:
  fixes h t n :: int
  assumes "0 < h - t" and "h - t \<le> n"
  shows "(h mod n \<le> t mod n \<longrightarrow> h - t = h mod n - t mod n + n) \<and>
         (t mod n < h mod n \<longrightarrow> h - t = h mod n - t mod n)"
proof (cases "h - t = n")
  case True
  then have "h = t + n"
    by simp
  then have "h mod n = t mod n"
    by simp
  with True show ?thesis
    by simp
next
  case False
  with assms have "0 \<le> h - t" "h - t < n"
    by simp_all
  from mod_gap [OF this] assms(1) show ?thesis
    by auto
qed

lemma mod_round_up:
  fixes h n :: int
  shows "(h + (n - h mod n)) mod n = 0"
proof -
  have "h = n * (h div n) + h mod n"
    by simp
  then have "h + (n - h mod n) = n * (h div n) + n"
    by linarith
  then have "(h + (n - h mod n)) mod n = (n * (h div n) + n) mod n"
    by (simp only:)
  also have "\<dots> = 0"
    by simp
  finally show ?thesis .
qed

lemma uio_ok_read:
  assumes "uio_ok io" and "uioread io u dst = ((n, e), dst', u')"
  shows "0 \<le> n \<and> n \<le> int (length dst) \<and> length dst' = length dst"
proof -
  have "case uioread io u dst of ((n, e), dst', u') \<Rightarrow>
        0 \<le> n \<and> n \<le> int (length dst) \<and> length dst' = length dst"
    using assms(1) unfolding uio_ok_def by simp
  with assms(2) show ?thesis
    by simp
qed

lemma uio_ok_write:
  assumes "uio_ok io" and "uiowrite io u src = ((n, e), u')"
  shows "0 \<le> n \<and> n \<le> int (length src)"
proof -
  have "case uiowrite io u src of ((n, e), u') \<Rightarrow> 0 \<le> n \<and> n \<le> int (length src)"
    using assms(1) unfolding uio_ok_def by simp
  with assms(2) show ?thesis
    by simp
qed

lemma go_slice_Some:
  assumes "go_slice s lo hi = Some d"
  shows "0 \<le> lo \<and> lo \<le> hi \<and> hi \<le> int (length s) \<and> int (length d) = hi - lo"
  using assms by (auto simp: go_slice_def split: if_splits)

lemma length_slice_store:
  assumes "0 \<le> lo" and "lo + int (length d) \<le> int (length s)"
  shows "length (slice_store s lo d) = length s"
  using assms by (simp add: slice_store_def)

lemma pg2bytes_whole: "slice_from (pg2bytes pg) 0 = Some (pg2bytes pg)"
  by (simp add: slice_from_def go_slice_def)

lemma pg2bytes_prefix:
  assumes "0 \<le> n" and "n \<le> PGSIZE"
  shows "slice_to (pg2bytes pg) n = Some (map pg [0..<nat n])"
proof -
  have l: "length (pg2bytes pg) = nat PGSIZE"
    by (simp add: pg2bytes_def)
  have "slice_to (pg2bytes pg) n = Some (take (nat n) (pg2bytes pg))"
    using assms by (simp add: slice_to_def go_slice_def l)
  moreover have "take (nat n) (pg2bytes pg) = map pg [0..<nat n]"
    using assms by (simp add: pg2bytes_def take_map min_def)
  ultimately show ?thesis
    by simp
qed

lemma cb_ensure_alloc:
  assumes "buf cbf = None" and "0 < bufsz cbf" and "bufsz cbf \<le> PGSIZE"
    and "refpg_new_nozero pm m = (Some (pg, ppg), m1)"
  shows "cb_ensure pm (cbf, m) =
           Some (0, cbf\<lparr>p_pg := ppg, buf := Some (map pg [0..<nat (bufsz cbf)]),
                        head := 0, tail := 0\<rparr>, refup pm ppg m1)"
proof -
  have "0 \<le> bufsz cbf"
    using assms(2) by simp
  from pg2bytes_prefix [OF this assms(3), of pg] show ?thesis
    using assms by (simp add: cb_ensure_def cb_init_phys_def pg2bytes_whole)
qed

lemma cb_ensure_present:
  "buf cbf = Some bs \<Longrightarrow> cb_ensure pm (cbf, m) = Some (0, cbf, m)"
  by (simp add: cb_ensure_def)

lemma cb_ensure_inv:
  assumes inv: "cb_inv cbf" and e: "cb_ensure pm (cbf, m) = Some (err, cbf1, m1)"
  shows "(err \<noteq> 0 \<and> cbf1 = cbf) \<or>
         (err = 0 \<and> cb_inv cbf1 \<and> buf cbf1 \<noteq> None \<and> head cbf1 \<le> head cbf)"
proof (cases "buf cbf")
  case (Some bs)
  with inv e show ?thesis
    by (simp add: cb_ensure_present)
next
  case None
  obtain r m2 where a: "refpg_new_nozero pm m = (r, m2)"
    by (cases "refpg_new_nozero pm m")
  show ?thesis
  proof (cases r)
    case None
    with e a \<open>buf cbf = None\<close> show ?thesis
      by (auto simp: cb_ensure_def ENOMEM_def split: if_splits)
  next
    case (Some p)
    obtain pg ppg where p: "p = (pg, ppg)"
      by (cases p)
    have b: "0 < bufsz cbf" "bufsz cbf \<le> PGSIZE" "0 \<le> head cbf"
      using inv by (simp_all add: cb_inv_def)
    from cb_ensure_alloc [OF None b(1,2) a [unfolded Some p]] e
    have "err = 0" and c: "cbf1 = cbf\<lparr>p_pg := ppg, buf := Some (map pg [0..<nat (bufsz cbf)]),
        head := 0, tail := 0\<rparr>"
      by simp_all
    then show ?thesis
      using b by (simp add: cb_inv_def)
  qed
qed


lemma copyin_rest_inv:
  assumes io: "uio_ok io" and inv: "cb_inv cbf" and bs: "buf cbf = Some bs"
    and hi: "0 \<le> hi" and c: "0 \<le> c"
    and room: "head cbf + c + (ti - hi) \<le> tail cbf + bufsz cbf"
    and small: "head cbf + PGSIZE < 2 ^ 63"
    and run: "copyin_rest io src cbf m c hi ti = Some (r, u', cbf', m')"
  shows "cb_inv cbf' \<and> head cbf' \<le> head cbf + PGSIZE"
proof -
  from run have le: "hi \<le> ti"
    by (auto simp: copyin_rest_def split: if_splits)
  from run le obtain dst where dst: "go_slice bs hi ti = Some dst"
    by (auto simp: copyin_rest_def bytes_def bs split: Option.bind_splits)
  from go_slice_Some [OF dst] have ti: "ti \<le> int (length bs)" and ld: "int (length dst) = ti - hi"
    by simp_all
  obtain wrote err dst' src' where rd: "uioread io src dst = ((wrote, err), dst', src')"
    by (metis prod_cases3 surj_pair)
  from uio_ok_read [OF io rd] have w: "0 \<le> wrote" "wrote \<le> ti - hi" and ld': "length dst' = length dst"
    by (simp_all add: ld)
  from inv bs have n: "0 < bufsz cbf" "bufsz cbf \<le> PGSIZE" "0 \<le> tail cbf" "tail cbf \<le> head cbf"
      "head cbf - tail cbf \<le> bufsz cbf" "int (length bs) = bufsz cbf"
    by (simp_all add: cb_inv_def)
  let ?bs' = "slice_store bs hi dst'"
  have lb: "length ?bs' = length bs"
    using hi ti ld ld' by (intro length_slice_store) simp_all
  have c1: "int64 (c + wrote) = c + wrote"
    using c w room n small by (intro int64_range) (simp_all add: PGSIZE_def)
  have h1: "int64 (head cbf + (c + wrote)) = head cbf + (c + wrote)"
    using c w room n small by (intro int64_range) (simp_all add: PGSIZE_def)
  from run le dst rd
  have "cbf' = cbf\<lparr>buf := Some ?bs'\<rparr> \<or> cbf' = cbf\<lparr>buf := Some ?bs', head := head cbf + (c + wrote)\<rparr>"
    by (auto simp: copyin_rest_def bytes_def bs Let_def c1 h1 split: if_splits)
  then show ?thesis
  proof
    assume "cbf' = cbf\<lparr>buf := Some ?bs'\<rparr>"
    then show ?thesis
      using n lb by (simp add: cb_inv_def PGSIZE_def)
  next
    assume "cbf' = cbf\<lparr>buf := Some ?bs', head := head cbf + (c + wrote)\<rparr>"
    then show ?thesis
      using n lb c w room by (simp add: cb_inv_def)
  qed
qed

lemma copyin_inv:
  assumes io: "uio_ok io" and inv: "cb_inv cbf" and small: "head cbf + PGSIZE < 2 ^ 63"
    and run: "copyin pm io src (cbf, m) = Some (r, u', cbf', m')"
  shows "cb_inv cbf' \<and> head cbf' \<le> head cbf + PGSIZE"
proof -
  from run obtain err cbf1 m1 where e: "cb_ensure pm (cbf, m) = Some (err, cbf1, m1)"
    by (auto simp: copyin_def split: Option.bind_splits)
  from cb_ensure_inv [OF inv e]
  consider (fail) "err \<noteq> 0" "cbf1 = cbf"
    | (ok) "err = 0" "cb_inv cbf1" "buf cbf1 \<noteq> None" "head cbf1 \<le> head cbf"
    by blast
  then show ?thesis
  proof cases
    case fail
    with run e have "cbf' = cbf"
      by (simp add: copyin_def)
    with inv show ?thesis
      by (simp add: PGSIZE_def)
  next
    case ok
    then obtain bs where bs: "buf cbf1 = Some bs"
      by blast
    from ok bs have n: "0 < bufsz cbf1" "bufsz cbf1 \<le> PGSIZE" "0 \<le> tail cbf1"
        "tail cbf1 \<le> head cbf1" "head cbf1 - tail cbf1 \<le> bufsz cbf1"
        "int (length bs) = bufsz cbf1"
      by (simp_all add: cb_inv_def)
    have small1: "head cbf1 + PGSIZE < 2 ^ 63"
      using small ok by simp
    have u: "int64 (head cbf1 - tail cbf1) = head cbf1 - tail cbf1"
      using n small1 by (intro int64_range) (simp_all add: PGSIZE_def)
    show ?thesis
    proof (cases "full cbf1")
      case True
      with run e ok have "cbf' = cbf1"
        by (simp add: copyin_def)
      with ok small show ?thesis
        by (simp add: PGSIZE_def)
    next
      case False
      then have nf: "head cbf1 - tail cbf1 < bufsz cbf1"
        using n by (simp add: full_def u)
      let ?n = "bufsz cbf1"
      let ?hi = "head cbf1 mod ?n" and ?ti = "tail cbf1 mod ?n"
      have rh: "go_rem (head cbf1) ?n = Some ?hi" and rt: "go_rem (tail cbf1) ?n = Some ?ti"
        using n by (simp_all add: go_rem_nonneg)
      have b: "0 \<le> ?hi" "?hi < ?n" "0 \<le> ?ti" "?ti < ?n"
        using n by simp_all
      have b': "?hi \<le> ?n" "?ti \<le> ?n"
        using b by linarith+
      have gap: "(?ti \<le> ?hi \<longrightarrow> head cbf1 - tail cbf1 = ?hi - ?ti) \<and>
                 (?hi < ?ti \<longrightarrow> head cbf1 - tail cbf1 = ?hi - ?ti + ?n)"
        using n nf by (intro mod_gap) simp_all
      show ?thesis
      proof (cases "?ti \<le> ?hi")
        case wrap: False
        with run e ok False have rest: "copyin_rest io src cbf1 m1 0 ?hi ?ti = Some (r, u', cbf', m')"
          by (simp add: copyin_def rh rt)
        have "head cbf1 + 0 + (?ti - ?hi) \<le> tail cbf1 + ?n"
          using gap wrap by simp
        from copyin_rest_inv [OF io ok(2) bs b(1) _ this small1 rest]
        show ?thesis
          using ok by simp
      next
        case True
        have used: "head cbf1 - tail cbf1 = ?hi - ?ti"
          using gap True by simp
        have dst: "slice_from (bytes cbf1) ?hi = Some (drop (nat ?hi) bs)"
          using b b' n by (simp add: bytes_def bs slice_from_def go_slice_def)
        let ?dst = "drop (nat ?hi) bs"
        have ld: "int (length ?dst) = ?n - ?hi"
          using b b' n by simp
        obtain wrote err' dst' src' where rd: "uioread io src ?dst = ((wrote, err'), dst', src')"
          by (metis prod_cases3 surj_pair)
        from uio_ok_read [OF io rd] have w: "0 \<le> wrote" "wrote \<le> ?n - ?hi"
          and ld': "length dst' = length ?dst"
          using ld by simp_all
        let ?bs' = "slice_store bs ?hi dst'"
        let ?cbf2 = "cbf1\<lparr>buf := Some ?bs'\<rparr>"
        have lb: "length ?bs' = length bs"
          using b n ld ld' by (intro length_slice_store) simp_all
        have inv2: "cb_inv ?cbf2"
          using ok(2) lb n by (simp add: cb_inv_def)
        have wn: "wrote \<le> PGSIZE"
          using w b n by linarith
        have hw: "int64 (head cbf1 + wrote) = head cbf1 + wrote"
          using n w wn small1 by (intro int64_range) linarith+
        have cw: "int64 wrote = wrote"
          using w wn by (intro int64_range) (simp_all add: PGSIZE_def)
        show ?thesis
        proof (cases "err' \<noteq> 0")
          case True
          with run e ok False \<open>?ti \<le> ?hi\<close> have "cbf' = ?cbf2"
            by (simp add: copyin_def rh rt dst rd bs)
          with inv2 ok show ?thesis
            by (simp add: PGSIZE_def)
        next
          case noerr: False
          show ?thesis
          proof (cases "wrote = int (length ?dst)")
            case short: False
            with run e ok False \<open>?ti \<le> ?hi\<close> noerr
            have "cbf' = ?cbf2\<lparr>head := head cbf1 + wrote\<rparr>"
              by (simp add: copyin_def rh rt dst rd bs hw)
            then show ?thesis
              using n lb w b used ok by (simp add: cb_inv_def)
          next
            case True
            then have wl: "wrote = ?n - ?hi"
              using ld by simp
            have "(head cbf1 + wrote) mod ?n = 0"
              unfolding wl by (rule mod_round_up)
            then have rh1: "go_rem (int64 (head ?cbf2 + wrote)) (bufsz ?cbf2) = Some 0"
              using n w by (simp add: hw go_rem_nonneg)
            have weq: "(wrote \<noteq> int (length bs - nat ?hi)) = False"
              using True by simp
            from run e ok False \<open>?ti \<le> ?hi\<close> noerr
            have rest: "copyin_rest io src' ?cbf2 m1 wrote 0 ?ti = Some (r, u', cbf', m')"
              using rh1 by (simp add: copyin_def rh rt dst rd bs cw weq Let_def)
            have room: "head ?cbf2 + wrote + (?ti - 0) \<le> tail ?cbf2 + bufsz ?cbf2"
              using used wl by simp
            have "buf ?cbf2 = Some ?bs'"
              by simp
            from copyin_rest_inv [OF io inv2 this _ w(1) room _ rest] small1
            show ?thesis
              using ok by simp
          qed
        qed
      qed
    qed
  qed
qed


lemma limit_max_Some:
  assumes "limit_max src mx = Some src'"
  shows "length src' \<le> length src \<and>
         (src' = src \<or> (mx \<noteq> 0 \<and> int (length src') = mx))"
  using assms
  by (auto simp: limit_max_def slice_to_def go_slice_def split: if_splits)

lemma copyout_rest_inv:
  assumes io: "uio_ok io" and inv: "cb_inv cbf" and bs: "buf cbf = Some bs"
    and ti: "0 \<le> ti" and c: "0 \<le> c"
    and avail: "tail cbf + c + (hi - ti) \<le> head cbf"
    and small: "head cbf + PGSIZE < 2 ^ 63"
    and run: "copyout_rest io dst cbf m c mx hi ti = Some (r, u', cbf', m')"
  shows "cb_inv cbf' \<and> head cbf' = head cbf"
proof -
  from run have le: "ti \<le> hi"
    by (auto simp: copyout_rest_def split: if_splits)
  from run le obtain src0 where src0: "go_slice bs ti hi = Some src0"
    by (auto simp: copyout_rest_def bytes_def bs split: Option.bind_splits)
  from run le src0 obtain src where src: "limit_max src0 mx = Some src"
    by (auto simp: copyout_rest_def bytes_def bs split: Option.bind_splits)
  from go_slice_Some [OF src0] limit_max_Some [OF src]
  have ls: "int (length src) \<le> hi - ti"
    by simp
  obtain wrote err dst' where wr: "uiowrite io dst src = ((wrote, err), dst')"
    by (metis surj_pair)
  from uio_ok_write [OF io wr] ls have w: "0 \<le> wrote" "wrote \<le> hi - ti"
    by simp_all
  from inv bs have n: "0 < bufsz cbf" "bufsz cbf \<le> PGSIZE" "0 \<le> tail cbf" "tail cbf \<le> head cbf"
      "head cbf - tail cbf \<le> bufsz cbf" "int (length bs) = bufsz cbf"
    by (simp_all add: cb_inv_def)
  have c1: "int64 (c + wrote) = c + wrote"
    using c w avail n small by (intro int64_range) linarith+
  have t1: "int64 (tail cbf + (c + wrote)) = tail cbf + (c + wrote)"
    using c w avail n small by (intro int64_range) linarith+
  from run le src0 src wr
  have "cbf' = cbf \<or> cbf' = cbf\<lparr>tail := tail cbf + (c + wrote)\<rparr>"
    by (auto simp: copyout_rest_def bytes_def bs Let_def c1 t1 split: if_splits)
  then show ?thesis
  proof
    assume "cbf' = cbf"
    with inv show ?thesis
      by simp
  next
    assume "cbf' = cbf\<lparr>tail := tail cbf + (c + wrote)\<rparr>"
    then show ?thesis
      using n c w avail by (simp add: cb_inv_def bs)
  qed
qed

lemma copyout_n_inv:
  assumes io: "uio_ok io" and inv: "cb_inv cbf" and small: "head cbf + PGSIZE < 2 ^ 63"
    and run: "copyout_n pm io dst mx (cbf, m) = Some (r, u', cbf', m')"
  shows "cb_inv cbf' \<and> head cbf' \<le> head cbf + PGSIZE"
proof -
  from run obtain err cbf1 m1 where e: "cb_ensure pm (cbf, m) = Some (err, cbf1, m1)"
    by (auto simp: copyout_n_def split: Option.bind_splits)
  from cb_ensure_inv [OF inv e]
  consider (fail) "err \<noteq> 0" "cbf1 = cbf"
    | (ok) "err = 0" "cb_inv cbf1" "buf cbf1 \<noteq> None" "head cbf1 \<le> head cbf"
    by blast
  then show ?thesis
  proof cases
    case fail
    with run e have "cbf' = cbf"
      by (simp add: copyout_n_def)
    with inv show ?thesis
      by (simp add: PGSIZE_def)
  next
    case ok
    then obtain bs where bs: "buf cbf1 = Some bs"
      by blast
    from ok bs have n: "0 < bufsz cbf1" "bufsz cbf1 \<le> PGSIZE" "0 \<le> tail cbf1"
        "tail cbf1 \<le> head cbf1" "head cbf1 - tail cbf1 \<le> bufsz cbf1"
        "int (length bs) = bufsz cbf1"
      by (simp_all add: cb_inv_def)
    have small1: "head cbf1 + PGSIZE < 2 ^ 63"
      using small ok by simp
    have fin: "cb_inv cbf' \<and> head cbf' \<le> head cbf + PGSIZE"
      if "cb_inv cbf' \<and> head cbf' = head cbf1"
      using that ok by (simp add: PGSIZE_def)
    show ?thesis
    proof (cases "empty cbf1")
      case True
      with run e ok have "cbf' = cbf1"
        by (simp add: copyout_n_def)
      with ok show ?thesis
        by (intro fin) simp
    next
      case False
      then have ne: "0 < head cbf1 - tail cbf1"
        using n by (simp add: empty_def)
      let ?n = "bufsz cbf1"
      let ?hi = "head cbf1 mod ?n" and ?ti = "tail cbf1 mod ?n"
      have rh: "go_rem (head cbf1) ?n = Some ?hi" and rt: "go_rem (tail cbf1) ?n = Some ?ti"
        using n by (simp_all add: go_rem_nonneg)
      have b: "0 \<le> ?hi" "?hi < ?n" "0 \<le> ?ti" "?ti < ?n"
        using n by simp_all
      have b': "?hi \<le> ?n" "?ti \<le> ?n"
        using b by linarith+
      have gap: "(?hi \<le> ?ti \<longrightarrow> head cbf1 - tail cbf1 = ?hi - ?ti + ?n) \<and>
                 (?ti < ?hi \<longrightarrow> head cbf1 - tail cbf1 = ?hi - ?ti)"
        using n ne by (intro mod_gap_full) simp_all
      show ?thesis
      proof (cases "?hi \<le> ?ti")
        case nowrap: False
        with run e ok False
        have rest: "copyout_rest io dst cbf1 m1 0 mx ?hi ?ti = Some (r, u', cbf', m')"
          by (simp add: copyout_n_def rh rt)
        have "tail cbf1 + 0 + (?hi - ?ti) \<le> head cbf1"
          using gap nowrap by simp
        from copyout_rest_inv [OF io ok(2) bs b(3) _ this small1 rest]
        show ?thesis
          by (intro fin) simp
      next
        case True
        have used: "head cbf1 - tail cbf1 = ?hi - ?ti + ?n"
          using gap True by simp
        let ?src0 = "drop (nat ?ti) bs"
        have src0: "slice_from (bytes cbf1) ?ti = Some ?src0"
          using b b' n by (simp add: bytes_def bs slice_from_def go_slice_def)
        have l0: "int (length ?src0) = ?n - ?ti"
          using b b' n by simp
        from run e ok False True obtain src where src: "limit_max ?src0 mx = Some src"
          by (auto simp: copyout_n_def rh rt src0 split: Option.bind_splits)
        from limit_max_Some [OF src]
        have ls: "int (length src) \<le> ?n - ?ti"
          and cut: "src = ?src0 \<or> (mx \<noteq> 0 \<and> int (length src) = mx)"
          using l0 by simp_all
        obtain wrote err' dst' where wr: "uiowrite io dst src = ((wrote, err'), dst')"
          by (metis surj_pair)
        from uio_ok_write [OF io wr] ls have w: "0 \<le> wrote" "wrote \<le> ?n - ?ti"
          by simp_all
        have wn: "wrote \<le> PGSIZE"
          using w b n by linarith
        have tw: "int64 (tail cbf1 + wrote) = tail cbf1 + wrote"
          using n w wn small1 by (intro int64_range) linarith+
        have cw: "int64 wrote = wrote"
          using w wn by (intro int64_range) (simp_all add: PGSIZE_def)
        show ?thesis
        proof (cases "err' \<noteq> 0")
          case True
          with run e ok False \<open>?hi \<le> ?ti\<close> have "cbf' = cbf1"
            by (simp add: copyout_n_def rh rt src0 src wr)
          with ok show ?thesis
            by (intro fin) simp
        next
          case noerr: False
          show ?thesis
          proof (cases "wrote \<noteq> int (length src) \<or> wrote = mx")
            case True
            with run e ok False \<open>?hi \<le> ?ti\<close> noerr
            have "cbf' = cbf1\<lparr>tail := tail cbf1 + wrote\<rparr>"
              by (simp add: copyout_n_def rh rt src0 src wr tw)
            moreover have "tail cbf1 + wrote \<le> head cbf1"
              using used w b by linarith
            ultimately show ?thesis
              using n w bs by (intro fin) (simp add: cb_inv_def)
          next
            case go: False
            then have wl: "wrote = int (length src)" and wm: "wrote \<noteq> mx"
              by simp_all
            with cut have "src = ?src0"
              by auto
            with wl l0 have wv: "wrote = ?n - ?ti"
              by simp
            have "(tail cbf1 + wrote) mod ?n = 0"
              unfolding wv by (rule mod_round_up)
            then have rt1: "go_rem (int64 (tail cbf1 + wrote)) ?n = Some 0"
              using n w by (simp add: tw go_rem_nonneg)
            have geq: "(wrote \<noteq> int (length src) \<or> wrote = mx) = False"
              "(wrote = int (length src) \<longrightarrow> int (length src) = mx) = False"
              using go by auto
            from run e ok False \<open>?hi \<le> ?ti\<close> noerr
            obtain mx1 where rest: "copyout_rest io dst' cbf1 m1 wrote mx1 ?hi 0 = Some (r, u', cbf', m')"
              using rt1 by (simp add: copyout_n_def rh rt src0 src wr cw geq Let_def)
            have av: "tail cbf1 + wrote + (?hi - 0) \<le> head cbf1"
              using used wv by simp
            from copyout_rest_inv [OF io ok(2) bs _ w(1) av small1 rest]
            show ?thesis
              by (intro fin) simp
          qed
        qed
      qed
    qed
  qed
qed

lemma cb_op_inv:
  assumes "uio_ok io" and "cb_inv cbf" and "head cbf + PGSIZE < 2 ^ 63"
    and "cb_op pm io x (cbf, m) = Some (r, u', cbf', m')"
  shows "cb_inv cbf' \<and> head cbf' \<le> head cbf + PGSIZE"
proof (cases x)
  case (Copyin src)
  with assms show ?thesis
    by (auto simp: cb_op_def dest: copyin_inv)
next
  case (Copyout dst)
  with assms show ?thesis
    by (auto simp: cb_op_def copyout_def dest: copyout_n_inv)
next
  case (Copyout_n dst mx)
  with assms show ?thesis
    by (auto simp: cb_op_def dest: copyout_n_inv)
qed

lemma cb_run_inv:
  assumes "uio_ok io" and "cb_inv cbf" and "head cbf + int (length xs) * PGSIZE < 2 ^ 63"
    and "cb_run pm io xs (cbf, m) = Some (cbf', m')"
  shows "cb_inv cbf'"
  using assms(2-)
proof (induction xs arbitrary: cbf m)
  case Nil
  then show ?case by simp
next
  case (Cons x xs)
  from Cons.prems(3) obtain r u1 cbf1 m1 where
    op: "cb_op pm io x (cbf, m) = Some (r, u1, cbf1, m1)"
    and run: "cb_run pm io xs (cbf1, m1) = Some (cbf', m')"
    by (auto split: option.splits)
  have "0 \<le> int (length xs) * PGSIZE"
    by (simp add: PGSIZE_def)
  moreover have s: "head cbf + (int (length xs) * PGSIZE + PGSIZE) < 2 ^ 63"
    using Cons.prems(2) by (simp add: algebra_simps)
  ultimately have "head cbf + PGSIZE < 2 ^ 63"
    by linarith
  from cb_op_inv [OF assms(1) Cons.prems(1) this op]
  have i1: "cb_inv cbf1" and h1: "head cbf1 \<le> head cbf + PGSIZE"
    by simp_all
  have "head cbf1 + int (length xs) * PGSIZE < 2 ^ 63"
    using h1 s by linarith
  from Cons.IH [OF i1 this run] show ?case .
qed


lemmas cb_eval = copyin_def copyin_rest_def copyout_n_def copyout_rest_def limit_max_def
  full_def empty_def bytes_def go_slice_def slice_from_def slice_to_def slice_store_def
  go_copy_def kuserio_def fake_uioread_def fake_uiowrite_def fake_tx_def mkfake_def fake_init_def
  ascii_def Let_def cb_ensure_present go_rem_nonneg int64_id is_int64_def cb8_def fake_st_def

lemma step1:
  assumes "refpg_new_nozero pm m = (Some (pg, ppg), m1)"
  shows "copyin pm kuserio (mkfake (ascii ''ABCDEFGH'')) (cb8_new, m) =
     Some ((8, 0), fake_st (ascii ''ABCDEFGH'') [] 8, cb8 (ascii ''ABCDEFGH'') 8 0 ppg, refup pm ppg m1)"
proof -
  have e: "cb_ensure pm (cb8_new, m) = Some (0, cb8 (map pg [0..<8]) 0 0 ppg, refup pm ppg m1)"
    using cb_ensure_alloc [OF _ _ _ assms, of cb8_new] by (simp add: cb8_new_def cb8_def PGSIZE_def)
  show ?thesis
    unfolding copyin_def e by (simp add: cb_eval)
qed

lemma step2:
  "copyout_n pm kuserio (mkfake (replicate 16 0)) 3 (cb8 (ascii ''ABCDEFGH'') 8 0 ppg, m) =
     Some ((3, 0), fake_st (ascii ''ABC'') (replicate 13 0) 16, cb8 (ascii ''ABCDEFGH'') 8 3 ppg, m)"
  by (simp add: cb_eval)

lemma step3:
  "copyin pm kuserio (mkfake (ascii ''IJ'')) (cb8 (ascii ''ABCDEFGH'') 8 3 ppg, m) =
     Some ((2, 0), fake_st (ascii ''IJ'') [] 2, cb8 (ascii ''IJCDEFGH'') 10 3 ppg, m)"
  by (simp add: cb_eval)

lemma step4:
  "copyout_n pm kuserio (mkfake (replicate 16 0)) 7 (cb8 (ascii ''IJCDEFGH'') 10 3 ppg, m) =
     Some ((7, 0), fake_st (ascii ''DEFGHIJ'') (replicate 9 0) 16, cb8 (ascii ''IJCDEFGH'') 10 10 ppg, m)"
  by (simp add: cb_eval)


lemma kuserio_ok: "uio_ok kuserio"
  by (auto simp: uio_ok_def kuserio_def fake_uioread_def fake_uiowrite_def fake_tx_def
      go_copy_def Let_def split: userio.splits)

lemma cb8_init: "cb_init 8 circbuf_zero = Some (0, cb8_new)"
  by (simp add: cb_init_def circbuf_zero_def cb8_new_def PGSIZE_def)

lemma one_page_alloc:
  "refpg_new_nozero physlog_ops one_page = (Some (stale_page, 0x5000), \<lparr>avail = [], calls = []\<rparr>)"
  by (simp add: physlog_ops_def one_page_def)

lemma cb_scenario_run:
  "cb_run physlog_ops kuserio cb_scenario (cb8_new, one_page) =
     Some (cb8 (ascii ''IJCDEFGH'') 10 10 0x5000, \<lparr>avail = [], calls = [Refup 0x5000]\<rparr>)"
proof -
  have r: "refup physlog_ops 0x5000 \<lparr>avail = [], calls = []\<rparr> = \<lparr>avail = [], calls = [Refup 0x5000]\<rparr>"
    by (simp add: physlog_ops_def)
  show ?thesis
    by (simp add: cb_scenario_def cb_op_def step1 [OF one_page_alloc] step2 step3 step4 r)
qed

text \<open>
  Claim C1.  For every buffer set up by \<open>cb_init\<close> (on a \<open>circbuf_t\<close> that has no page
  yet) and every sequence of \<open>copyin\<close>, \<open>copyout\<close> and \<open>copyout_n\<close> calls on it, with
  user buffers that keep to the \<open>userio_i\<close> contract, the state after the sequence has
  \<open>head \<ge> tail\<close> and \<open>head - tail \<le> bufsz\<close>; \<open>empty()\<close> is true exactly when
  \<open>head = tail\<close> and \<open>full()\<close> exactly when \<open>head - tail = bufsz\<close>.  As this holds
  for every sequence, it holds after every call of a run.  (The counters are 64-bit
  \<open>int\<close>s that only grow, by at most a page per call; the run is one that does not
  exhaust them.)
\<close>

theorem circbuf_invariant:
  assumes io: "uio_ok io"
    and fresh: "buf cbf0 = None"
    and init: "cb_init sz cbf0 = Some (e, cbf1)"
    and len: "int (length xs) * PGSIZE < 2 ^ 63"
    and run: "cb_run pm io xs (cbf1, m) = Some (cbf', m')"
  shows "tail cbf' \<le> head cbf' \<and> head cbf' - tail cbf' \<le> bufsz cbf' \<and>
         (empty cbf' \<longleftrightarrow> head cbf' = tail cbf') \<and>
         (full cbf' \<longleftrightarrow> head cbf' - tail cbf' = bufsz cbf')"
proof -
  from init fresh have i1: "cb_inv cbf1" and h1: "head cbf1 = 0"
    by (auto simp: cb_init_def cb_inv_def Let_def split: if_splits)
  from cb_run_inv [OF io i1 _ run] len h1 have inv: "cb_inv cbf'"
    by simp
  then have n: "0 \<le> head cbf' - tail cbf'" "head cbf' - tail cbf' \<le> bufsz cbf'"
      "bufsz cbf' \<le> PGSIZE"
    by (simp_all add: cb_inv_def)
  then have "int64 (head cbf' - tail cbf') = head cbf' - tail cbf'"
    by (intro int64_range) (simp_all add: PGSIZE_def)
  with n show ?thesis
    by (simp add: empty_def full_def)
qed


text \<open>
  The run write 8, read 3, write 2, read 7 on a buffer of size 8 ends with
  \<open>head = tail = 10\<close>: empty and not full.
\<close>

theorem circbuf_invariant_witness:
  "uio_ok kuserio \<and> buf circbuf_zero = None \<and>
   cb_init 8 circbuf_zero = Some (0, cb8_new) \<and>
   int (length cb_scenario) * PGSIZE < 2 ^ 63 \<and>
   cb_run physlog_ops kuserio cb_scenario (cb8_new, one_page) =
     Some (cb8 (ascii ''IJCDEFGH'') 10 10 0x5000, \<lparr>avail = [], calls = [Refup 0x5000]\<rparr>) \<and>
   tail (cb8 (ascii ''IJCDEFGH'') 10 10 0x5000) \<le> head (cb8 (ascii ''IJCDEFGH'') 10 10 0x5000) \<and>
   head (cb8 (ascii ''IJCDEFGH'') 10 10 0x5000) - tail (cb8 (ascii ''IJCDEFGH'') 10 10 0x5000)
     \<le> bufsz (cb8 (ascii ''IJCDEFGH'') 10 10 0x5000) \<and>
   empty (cb8 (ascii ''IJCDEFGH'') 10 10 0x5000) \<and>
   \<not> full (cb8 (ascii ''IJCDEFGH'') 10 10 0x5000)"
proof -
  have f: "buf circbuf_zero = None"
    by (simp add: circbuf_zero_def)
  have l: "int (length cb_scenario) * PGSIZE < 2 ^ 63"
    by (simp add: cb_scenario_def PGSIZE_def)
  from circbuf_invariant [OF kuserio_ok f cb8_init l cb_scenario_run]
  show ?thesis
    using kuserio_ok f cb8_init l cb_scenario_run by (simp add: cb8_def)
qed

text \<open>
  Claim C2.  On a \<open>circbuf_t\<close> of size 8 for which the allocator has a page:
  \<open>copyin\<close> of the 8 bytes \<open>ABCDEFGH\<close> takes them all and the buffer is full;
  \<open>copyout_n\<close> with limit 3 delivers \<open>ABC\<close>; \<open>copyin\<close> of \<open>IJ\<close> takes both bytes;
  \<open>copyout_n\<close> with limit 7 delivers \<open>DEFGHIJ\<close>, from both sides of the wrap point;
  the buffer is empty afterwards.  (The destinations are 16-byte kernel buffers.)
\<close>

theorem circbuf_size8_scenario:
  assumes "refpg_new_nozero pm m = (Some (pg, ppg), m1)"
  shows "cb_init 8 circbuf_zero = Some (0, cb8_new) \<and>
    copyin pm kuserio (mkfake (ascii ''ABCDEFGH'')) (cb8_new, m) =
      Some ((8, 0), fake_st (ascii ''ABCDEFGH'') [] 8,
            cb8 (ascii ''ABCDEFGH'') 8 0 ppg, refup pm ppg m1) \<and>
    full (cb8 (ascii ''ABCDEFGH'') 8 0 ppg) \<and>
    copyout_n pm kuserio (mkfake (replicate 16 0)) 3
        (cb8 (ascii ''ABCDEFGH'') 8 0 ppg, refup pm ppg m1) =
      Some ((3, 0), fake_st (ascii ''ABC'') (replicate 13 0) 16,
            cb8 (ascii ''ABCDEFGH'') 8 3 ppg, refup pm ppg m1) \<and>
    copyin pm kuserio (mkfake (ascii ''IJ'')) (cb8 (ascii ''ABCDEFGH'') 8 3 ppg, refup pm ppg m1) =
      Some ((2, 0), fake_st (ascii ''IJ'') [] 2,
            cb8 (ascii ''IJCDEFGH'') 10 3 ppg, refup pm ppg m1) \<and>
    copyout_n pm kuserio (mkfake (replicate 16 0)) 7
        (cb8 (ascii ''IJCDEFGH'') 10 3 ppg, refup pm ppg m1) =
      Some ((7, 0), fake_st (ascii ''DEFGHIJ'') (replicate 9 0) 16,
            cb8 (ascii ''IJCDEFGH'') 10 10 ppg, refup pm ppg m1) \<and>
    empty (cb8 (ascii ''IJCDEFGH'') 10 10 ppg)"
proof -
  have "full (cb8 (ascii ''ABCDEFGH'') 8 0 ppg)" and "empty (cb8 (ascii ''IJCDEFGH'') 10 10 ppg)"
    by (simp_all add: full_def empty_def cb8_def int64_def)
  then show ?thesis
    by (simp add: cb8_init step1 [OF assms] step2 step3 step4)
qed

theorem circbuf_size8_scenario_witness:
  "refpg_new_nozero physlog_ops one_page =
     (Some (stale_page, 0x5000), \<lparr>avail = [], calls = []\<rparr>) \<and>
   copyin physlog_ops kuserio (mkfake (ascii ''ABCDEFGH'')) (cb8_new, one_page) =
     Some ((8, 0), fake_st (ascii ''ABCDEFGH'') [] 8,
           cb8 (ascii ''ABCDEFGH'') 8 0 0x5000, \<lparr>avail = [], calls = [Refup 0x5000]\<rparr>) \<and>
   copyout_n physlog_ops kuserio (mkfake (replicate 16 0)) 7
       (cb8 (ascii ''IJCDEFGH'') 10 3 0x5000, \<lparr>avail = [], calls = [Refup 0x5000]\<rparr>) =
     Some ((7, 0), fake_st (ascii ''DEFGHIJ'') (replicate 9 0) 16,
           cb8 (ascii ''IJCDEFGH'') 10 10 0x5000, \<lparr>avail = [], calls = [Refup 0x5000]\<rparr>) \<and>
   empty (cb8 (ascii ''IJCDEFGH'') 10 10 0x5000)"
proof -
  have r: "refup physlog_ops 0x5000 \<lparr>avail = [], calls = []\<rparr> = \<lparr>avail = [], calls = [Refup 0x5000]\<rparr>"
    by (simp add: physlog_ops_def)
  from circbuf_size8_scenario [OF one_page_alloc] show ?thesis
    using one_page_alloc by (simp add: r)
qed

section \<open>Circular buffer: release\<close>

text \<open>
  Claim C9 says that after any call of \<open>cb_release\<close> the buffer has \<open>buf\<close> nil,
  \<open>p_pg\<close> 0 and \<open>head = tail = 0\<close>.  A call on a buffer without a page returns at
  once and leaves the counters: \<open>cb_init(8)\<close> and \<open>_advhead(3)\<close> on the zero value
  give a buffer without a page whose \<open>head\<close> is 3, and it is still 3 after
  \<open>cb_release\<close>.
\<close>

theorem cb_release_keeps_head_counterexample:
  "cb_init 8 circbuf_zero = Some (0, cb_stale\<lparr>head := 0\<rparr>) \<and>
   advhead 3 (cb_stale\<lparr>head := 0\<rparr>) = Some cb_stale \<and>
   head (fst (cb_release physlog_ops (cb_stale, \<lparr>avail = [], calls = []\<rparr>))) = 3"
  by (simp add: cb_init_def circbuf_zero_def cb_stale_def PGSIZE_def advhead_def full_def
      left_def int64_def cb_release_def)

text \<open>
  Claim C9, amended.  \<open>cb_release\<close> is total and idempotent on every \<open>circbuf_t\<close>:
  on a buffer whose \<open>buf\<close> is nil it changes nothing; calling it twice is the same
  as calling it once; after any call \<open>buf\<close> is nil; and after a call on a buffer
  whose \<open>buf\<close> was not nil, \<open>p_pg\<close> is 0 and \<open>head = tail = 0\<close> (the page's
  reference having been dropped once).
\<close>

theorem cb_release_idempotent:
  "(buf cbf = None \<longrightarrow> cb_release pm (cbf, m) = (cbf, m)) \<and>
   cb_release pm (cb_release pm (cbf, m)) = cb_release pm (cbf, m) \<and>
   buf (fst (cb_release pm (cbf, m))) = None \<and>
   (buf cbf \<noteq> None \<longrightarrow>
      cb_release pm (cbf, m) =
        (cbf\<lparr>p_pg := 0, buf := None, head := 0, tail := 0\<rparr>, refdown pm (p_pg cbf) m))"
  by (auto simp: cb_release_def split: option.splits)

theorem cb_release_idempotent_witness:
  "buf cb_stale = None \<and>
   cb_release physlog_ops (cb_stale, \<lparr>avail = [], calls = []\<rparr>) =
     (cb_stale, \<lparr>avail = [], calls = []\<rparr>) \<and>
   buf cb_live \<noteq> None \<and>
   cb_release physlog_ops (cb_live, \<lparr>avail = [], calls = []\<rparr>) =
     (\<lparr>buf = None, bufsz = 8, head = 0, tail = 0, p_pg = 0\<rparr>,
      \<lparr>avail = [], calls = [Refdown 0x5000]\<rparr>) \<and>
   cb_release physlog_ops (cb_release physlog_ops (cb_live, \<lparr>avail = [], calls = []\<rparr>)) =
     (\<lparr>buf = None, bufsz = 8, head = 0, tail = 0, p_pg = 0\<rparr>,
      \<lparr>avail = [], calls = [Refdown 0x5000]\<rparr>)"
  using cb_release_idempotent [of cb_stale physlog_ops "\<lparr>avail = [], calls = []\<rparr>"]
    cb_release_idempotent [of cb_live physlog_ops "\<lparr>avail = [], calls = []\<rparr>"]
  by (simp add: cb_stale_def cb_live_def physlog_ops_def cb_release_def)

section \<open>Fd pass queue\<close>

lemma mod10_apart:
  assumes "(a :: nat) < b" and "b < a + 10"
  shows "a mod 10 \<noteq> b mod 10"
proof
  assume "a mod 10 = b mod 10"
  then have "b mod 10 = a mod 10"
    by simp
  then have "10 dvd b - a"
    using assms(1) mod_eq_dvd_iff_nat [of a b 10] by simp
  moreover have "0 < b - a" "b - a < 10"
    using assms by simp_all
  ultimately show False
    using nat_dvd_not_less by blast
qed

lemma pf_inv_len:
  assumes "pf_inv pf"
  shows "unat (inum pf - cnum pf) = unat (inum pf) - unat (cnum pf)"
proof -
  from assms have "cnum pf \<le> inum pf"
    by (simp add: pf_inv_def word_le_nat_alt)
  then show "unat (inum pf - cnum pf) = unat (inum pf) - unat (cnum pf)"
    by (rule unat_sub)
qed

lemma length_queued: "pf_inv pf \<Longrightarrow> length (queued pf) = unat (inum pf) - unat (cnum pf)"
  by (simp add: queued_def pf_inv_len)

lemma unat_succ: "unat (w :: uint) + 1 < 2 ^ 64 \<Longrightarrow> unat (w + 1) = unat w + 1"
  using unat_add_lem [of w 1] by simp

lemma go_urem_10: "go_urem w 10 = Some (w mod 10)" and unat_mod_10: "unat ((w :: uint) mod 10) = unat w mod 10"
  by (simp_all add: go_urem_def unat_mod)

lemma passfd_add_full:
  assumes "pf_inv pf" and "length (queued pf) = 10"
  shows "passfd_add nfd pf = Some (False, pf)"
proof -
  from assms have r: "cb pf \<noteq> None" "length (ring pf) = 10"
    by (auto simp: pf_inv_def length_queued ring_def word_unat_eq_iff split: option.splits)
  have "unat (inum pf - cnum pf) = 10"
    using assms by (simp add: pf_inv_len length_queued)
  then have "inum pf - cnum pf = 10"
    by (simp add: word_unat_eq_iff)
  then show ?thesis
    using r by (auto simp: passfd_add_def Let_def)
qed

lemma passfd_add_room:
  assumes inv: "pf_inv pf" and room: "length (queued pf) \<noteq> 10"
    and small: "unat (inum pf) + 1 < 2 ^ 64"
  shows "\<exists>pf'. passfd_add nfd pf = Some (True, pf') \<and> pf_inv pf' \<and>
           queued pf' = queued pf @ [nfd] \<and> inum pf' = inum pf + 1"
proof -
  define pf1 where "pf1 = (if cb pf = None then pf\<lparr>cb := Some (replicate 10 None)\<rparr> else pf)"
  have inv1: "pf_inv pf1" and len1: "length (ring pf1) = 10"
    and q1: "queued pf1 = queued pf" and n1: "inum pf1 = inum pf" "cnum pf1 = cnum pf"
    using inv by (auto simp: pf1_def pf_inv_def ring_def queued_def split: option.splits)
  let ?i = "unat (inum pf)" and ?c = "unat (cnum pf)"
  have ci: "?c \<le> ?i" and lt: "?i - ?c < 10"
    using inv room by (auto simp: pf_inv_def length_queued)
  have d: "unat (inum pf - cnum pf) = ?i - ?c"
    using inv by (rule pf_inv_len)
  have nf: "inum pf1 - cnum pf1 \<noteq> 10"
    using lt d by (auto simp: n1 word_unat_eq_iff)
  let ?r = "(ring pf1)[?i mod 10 := nfd]"
  let ?pf' = "pf1\<lparr>cb := Some ?r, inum := inum pf + 1\<rparr>"
  have add: "passfd_add nfd pf = Some (True, ?pf')"
    using nf len1
    by (simp add: passfd_add_def Let_def pf1_def [symmetric] go_urem_10 go_assign_def unat_mod_10 n1)
  have i': "unat (inum pf + 1) = ?i + 1"
    using small by (rule unat_succ)
  have inv': "pf_inv ?pf'"
    using ci lt len1 by (simp add: pf_inv_def i' n1)
  have d': "unat (inum ?pf' - cnum ?pf') = Suc (?i - ?c)"
    using pf_inv_len [OF inv'] ci by (simp add: i' n1)
  have old: "?r ! ((?c + k) mod 10) = ring pf1 ! ((?c + k) mod 10)" if "k < ?i - ?c" for k
  proof -
    have "(?c + k) mod 10 \<noteq> ?i mod 10"
      using that lt by (intro mod10_apart) simp_all
    then show ?thesis by simp
  qed
  have new: "?r ! ((?c + (?i - ?c)) mod 10) = nfd"
    using ci len1 by simp
  have rr: "ring ?pf' = ?r"
    by (simp add: ring_def)
  have qa: "queued ?pf' = map (\<lambda>k. ?r ! ((?c + k) mod 10)) [0..<Suc (?i - ?c)]"
    unfolding queued_def d' rr by (simp add: n1 len1 del: upt_Suc)
  have qb: "queued pf1 = map (\<lambda>k. ring pf1 ! ((?c + k) mod 10)) [0..<?i - ?c]"
    unfolding queued_def by (simp add: n1 len1 d)
  have "map (\<lambda>k. ?r ! ((?c + k) mod 10)) [0..<?i - ?c] =
        map (\<lambda>k. ring pf1 ! ((?c + k) mod 10)) [0..<?i - ?c]"
    by (rule map_cong) (simp_all add: old)
  then have "queued ?pf' = queued pf1 @ [nfd]"
    unfolding qa qb using new by simp
  with add inv' q1 show ?thesis
    by auto
qed

lemma passfd_take_empty:
  assumes "pf_inv pf" and "queued pf = []"
  shows "passfd_take pf = Some ((None, False), pf)"
proof -
  from assms have "unat (inum pf) = unat (cnum pf)"
    using length_queued [OF assms(1)] by (simp add: pf_inv_def)
  then have "inum pf = cnum pf"
    by (simp add: word_unat_eq_iff)
  then show ?thesis
    by (simp add: passfd_take_def)
qed

lemma passfd_take_some:
  assumes inv: "pf_inv pf" and q: "queued pf = fd # q"
  shows "\<exists>pf'. passfd_take pf = Some ((fd, True), pf') \<and> pf_inv pf' \<and>
           queued pf' = q \<and> inum pf' = inum pf"
proof -
  let ?i = "unat (inum pf)" and ?c = "unat (cnum pf)"
  have lq: "length (queued pf) = ?i - ?c"
    using inv by (rule length_queued)
  with q have ci: "?c < ?i"
    by simp
  then have ne: "inum pf \<noteq> cnum pf"
    by auto
  from inv ne have len: "length (ring pf) = 10"
    by (auto simp: pf_inv_def ring_def split: option.splits)
  have d: "unat (inum pf - cnum pf) = ?i - ?c"
    using inv by (rule pf_inv_len)
  have "?i < 2 ^ 64"
    using unsigned_less [of "inum pf"] by simp
  with ci have c': "unat (cnum pf + 1) = ?c + 1"
    by (intro unat_succ) simp
  let ?pf' = "pf\<lparr>cnum := cnum pf + 1\<rparr>"
  have qq: "queued pf = map (\<lambda>k. ring pf ! ((?c + k) mod 10)) [0..<Suc (?i - Suc ?c)]"
    unfolding queued_def using ci by (simp add: len d Suc_diff_Suc del: upt_Suc)
  then have hd: "fd = ring pf ! (?c mod 10)"
    and tl: "q = map (\<lambda>k. ring pf ! ((?c + Suc k) mod 10)) [0..<?i - Suc ?c]"
    using q unfolding qq map_upt_Suc by simp_all
  have take: "passfd_take pf = Some ((fd, True), ?pf')"
    using ne len by (simp add: passfd_take_def go_urem_10 go_index_def unat_mod_10 hd)
  have inv': "pf_inv ?pf'"
    using inv ci by (auto simp: pf_inv_def c' split: option.splits)
  have rr: "ring ?pf' = ring pf"
    by (simp add: ring_def)
  have "queued ?pf' = q"
    unfolding queued_def rr pf_inv_len [OF inv'] tl by (simp add: c' len)
  with take inv' show ?thesis
    by auto
qed

lemma passfd_refines_fifo:
  assumes "pf_inv pf" and "unat (inum pf) + length xs < 2 ^ 64"
  shows "\<exists>pf'. passfd_run xs pf = Some (fifo_run xs (queued pf), pf')"
  using assms
proof (induction xs arbitrary: pf)
  case Nil
  then show ?case by simp
next
  case (Cons x xs)
  show ?case
  proof (cases x)
    case (Add nfd)
    show ?thesis
    proof (cases "length (queued pf) = 10")
      case True
      have "passfd_add nfd pf = Some (False, pf)"
        using Cons.prems(1) True by (rule passfd_add_full)
      moreover have "\<exists>pf'. passfd_run xs pf = Some (fifo_run xs (queued pf), pf')"
        using Cons.prems by (intro Cons.IH) simp_all
      ultimately show ?thesis
        using True by (auto simp: Add)
    next
      case False
      have "unat (inum pf) + 1 < 2 ^ 64"
        using Cons.prems(2) by simp
      from passfd_add_room [OF Cons.prems(1) False this, of nfd]
      obtain pf1 where a: "passfd_add nfd pf = Some (True, pf1)" and i1: "pf_inv pf1"
        and q1: "queued pf1 = queued pf @ [nfd]" and n1: "inum pf1 = inum pf + 1"
        by blast
      have "unat (inum pf1) + length xs < 2 ^ 64"
        using Cons.prems(2) unat_succ [of "inum pf"] by (simp add: n1)
      from Cons.IH [OF i1 this]
      obtain pf' where "passfd_run xs pf1 = Some (fifo_run xs (queued pf1), pf')"
        by blast
      then show ?thesis
        using a False by (simp add: Add q1)
    qed
  next
    case Take
    show ?thesis
    proof (cases "queued pf")
      case Nil
      have "passfd_take pf = Some ((None, False), pf)"
        using Cons.prems(1) Nil by (rule passfd_take_empty)
      moreover have "\<exists>pf'. passfd_run xs pf = Some (fifo_run xs (queued pf), pf')"
        using Cons.prems by (intro Cons.IH) simp_all
      ultimately show ?thesis
        using Nil by (auto simp: Take)
    next
      case (Cons fd q)
      from passfd_take_some [OF Cons.prems(1) Cons]
      obtain pf1 where t: "passfd_take pf = Some ((fd, True), pf1)" and i1: "pf_inv pf1"
        and q1: "queued pf1 = q" and n1: "inum pf1 = inum pf"
        by blast
      have "unat (inum pf1) + length xs < 2 ^ 64"
        using Cons.prems(2) by (simp add: n1)
      from Cons.IH [OF i1 this]
      obtain pf' where "passfd_run xs pf1 = Some (fifo_run xs (queued pf1), pf')"
        by blast
      then show ?thesis
        using t Cons by (simp add: Take q1)
    qed
  qed
qed


text \<open>
  Claim C6.  The queue has capacity 10: from the empty \<open>passfd_t\<close>, of eleven
  consecutive \<open>add\<close> calls the first ten return \<open>true\<close> and the eleventh \<open>false\<close>;
  and over any sequence of \<open>add\<close> and \<open>take\<close> calls, however interleaved, every
  call returns what a first-in first-out queue of capacity 10 returns, so \<open>take\<close>
  hands the descriptors out in the order they were added.  (\<open>inum\<close> is a 64-bit
  counter of the \<open>add\<close> calls; the run is shorter than \<open>2^64\<close> calls.)
\<close>

theorem passfd_fifo:
  fixes ds :: "'fd option list" and xs :: "'fd pfop list"
  shows "(length ds = 11 \<longrightarrow>
      (\<exists>pf'. passfd_run (map Add ds) passfd_zero =
               Some (map Inl (replicate 10 True @ [False]), pf'))) \<and>
   (length xs < 2 ^ 64 \<longrightarrow>
      (\<exists>pf'. passfd_run xs passfd_zero = Some (fifo_run xs [], pf')))"
proof -
  have inv0: "pf_inv (passfd_zero :: 'fd passfd_t)"
    and q0: "queued (passfd_zero :: 'fd passfd_t) = []"
    and i0: "unat (inum (passfd_zero :: 'fd passfd_t)) = 0"
    by (simp_all add: pf_inv_def queued_def passfd_zero_def)
  have gen: "\<exists>pf'. passfd_run ys (passfd_zero :: 'fd passfd_t) = Some (fifo_run ys [], pf')"
    if "length ys < 2 ^ 64" for ys
    using passfd_refines_fifo [OF inv0, of ys] that by (simp add: q0 i0)
  have "\<exists>pf'. passfd_run (map Add ds) passfd_zero =
               Some (map Inl (replicate 10 True @ [False]), pf')"
    if l: "length ds = 11"
  proof -
    from l obtain a1 a2 a3 a4 a5 a6 a7 a8 a9 a10 a11 where
      ds: "ds = [a1, a2, a3, a4, a5, a6, a7, a8, a9, a10, a11]"
      by (auto simp: length_Suc_conv eval_nat_numeral)
    have "fifo_run (map Add ds) [] = map Inl (replicate 10 True @ [False])"
      by (simp add: ds eval_nat_numeral)
    moreover have "length (map Add ds) < 2 ^ 64"
      by (simp add: l)
    ultimately show ?thesis
      using gen [of "map Add ds"] by simp
  qed
  with gen show ?thesis
    by blast
qed

text \<open>
  Eleven \<open>add\<close> calls, one \<open>take\<close>, one more \<open>add\<close>, ten \<open>take\<close> calls: the
  eleventh descriptor is refused and the others come out in the order 1 to 10, 12.
\<close>

theorem passfd_fifo_witness:
  "length pf_fds11 = 11 \<and> length pf_scenario < 2 ^ 64 \<and>
   map_option fst (passfd_run (map Add pf_fds11) passfd_zero) =
     Some (map Inl (replicate 10 True @ [False])) \<and>
   map_option fst (passfd_run pf_scenario passfd_zero) =
     Some (map Inl (replicate 10 True @ [False]) @
           [Inr (Some 1, True), Inl True] @
           map (\<lambda>n. Inr (Some n, True)) [2, 3, 4, 5, 6, 7, 8, 9, 10, 12])"
proof -
  have a: "length pf_fds11 = 11"
    by (simp add: pf_fds11_def)
  have b: "length pf_scenario < 2 ^ 64"
    by (simp add: pf_scenario_def pf_fds11_def)
  have f: "fifo_run pf_scenario [] =
     map Inl (replicate 10 True @ [False]) @ [Inr (Some 1, True), Inl True] @
     map (\<lambda>n. Inr (Some n, True)) [2, 3, 4, 5, 6, 7, 8, 9, 10, 12]"
    by (simp add: pf_scenario_def pf_fds11_def eval_nat_numeral)
  from passfd_fifo [of pf_fds11 pf_scenario] a b f show ?thesis
    by auto
qed

text \<open>
  Claim C10.  On the zero value of \<open>passfd_t\<close>, on which \<open>add\<close> was never called,
  \<open>take\<close> returns \<open>(nil, false)\<close> and \<open>closeall\<close> returns without closing anything;
  neither panics, so the index computation modulo the ring length 0 is not reached.
\<close>

theorem passfd_zero_safe:
  "passfd_take (passfd_zero :: 'fd passfd_t) = Some ((None, False), passfd_zero) \<and>
   passfd_closeall (passfd_zero :: 'fd passfd_t) [] = Some (passfd_zero, [])"
proof -
  have t: "passfd_take (passfd_zero :: 'fd passfd_t) = Some ((None, False), passfd_zero)"
    by (simp add: passfd_take_def passfd_zero_def)
  have "passfd_closeall (passfd_zero :: 'fd passfd_t) [] = Some (passfd_zero, [])"
    by (subst passfd_closeall.simps) (simp add: t)
  with t show ?thesis by simp
qed

end
